theory Spec2Isabelle
  imports Complex_Main "HOL-Library.Word"
begin

section \<open>Data model\<close>

text \<open>
  A decoded image, as \<^verbatim>\<open>sharp(buf).raw().toBuffer({resolveWithObject: true})\<close> returns it:
  the byte buffer \<open>data\<close> and the \<open>info\<close> fields \<open>width\<close>, \<open>height\<close>, \<open>channels\<close>.
  Pixels are row-major and channel-interleaved: channel \<open>c\<close> of pixel \<open>(x, y)\<close> is the byte at
  index \<open>(y * width + x) * channels + c\<close>.
\<close>

type_synonym byte = "8 word"

record rawImage =
  data :: "byte list"
  width :: nat
  height :: nat
  channels :: nat

text \<open>The invariant of a decoded buffer: one byte per pixel and channel, at least one channel.\<close>

definition wellFormed :: "rawImage \<Rightarrow> bool" where
  "wellFormed img \<longleftrightarrow>
     length (data img) = width img * height img * channels img \<and> 0 < channels img"

text \<open>
  Reading \<^verbatim>\<open>data[idx]\<close> from a Node Buffer: out of range the value is \<^verbatim>\<open>undefined\<close>
  (\<open>None\<close>), and both \<^verbatim>\<open>undefined < 128\<close> and \<^verbatim>\<open>undefined >= 128\<close> are false.
  Writing out of range is ignored, which is what \<open>xs[i := v]\<close> does.
\<close>

definition readByte :: "byte list \<Rightarrow> nat \<Rightarrow> byte option" where
  "readByte d i = (if i < length d then Some (d ! i) else None)"

definition lessThan128 :: "byte option \<Rightarrow> bool" where
  "lessThan128 v = (case v of None \<Rightarrow> False | Some b \<Rightarrow> b < 128)"

definition atLeast128 :: "byte option \<Rightarrow> bool" where
  "atLeast128 v = (case v of None \<Rightarrow> False | Some b \<Rightarrow> 128 \<le> b)"

text \<open>Index of the first channel of pixel \<open>(x, y)\<close>: \<^verbatim>\<open>(y * width + x) * channels\<close>.\<close>

definition pixelIndex :: "rawImage \<Rightarrow> nat \<Rightarrow> nat \<Rightarrow> nat" where
  "pixelIndex img x y = (y * width img + x) * channels img"

text \<open>\<^verbatim>\<open>for (let c = 0; c < channels; c++) outputData[idx + c] = v\<close>\<close>

definition fillPixel :: "nat \<Rightarrow> nat \<Rightarrow> byte \<Rightarrow> byte list \<Rightarrow> byte list" where
  "fillPixel chans idx v out = fold (\<lambda>c buf. buf[idx + c := v]) [0..<chans] out"

text \<open>The test \<^verbatim>\<open>ny >= 0 && ny < height && nx >= 0 && nx < width\<close> on signed coordinates.\<close>

definition inBounds :: "rawImage \<Rightarrow> int \<Rightarrow> int \<Rightarrow> bool" where
  "inBounds img nx ny \<longleftrightarrow> 0 \<le> ny \<and> ny < int (height img) \<and> 0 \<le> nx \<and> nx < int (width img)"

section \<open>JavaScript numbers\<close>

text \<open>
  The numbers of the source are IEEE 754 binary64 values, and every arithmetic operation rounds
  its exact result to the nearest of them, ties to the even significand. A finite value is
  given by the rational number it stands for. The two zeros are not told apart: the only
  operation that could tell them apart is a division by zero, and the divisors of the source
  are lengths and sizes.
\<close>

datatype double = Finite rat | PosInf | NegInf | NaN

text \<open>The number of binary digits of a positive integer, 0 for the others.\<close>

function bitLength :: "int \<Rightarrow> int" where
  "bitLength n = (if n \<le> 0 then 0 else 1 + bitLength (n div 2))"
  by pat_completeness auto
termination
  by (relation "measure nat") auto

declare bitLength.simps [simp del]

definition pow2 :: "int \<Rightarrow> rat" where
  "pow2 e = (if 0 \<le> e then 2 ^ nat e else 1 / 2 ^ nat (- e))"

text \<open>
  The binary exponent of a positive rational \<open>q\<close>: the \<open>e\<close> with \<open>2^e \<le> q < 2^(e+1)\<close>, found from
  the lengths of numerator and denominator.
\<close>

definition floorLog2 :: "rat \<Rightarrow> int" where
  "floorLog2 q =
     (let (a, b) = quotient_of q;
          d = bitLength a - bitLength b
      in if pow2 d \<le> q then d else d - 1)"

text \<open>The nearest integer of a rational that is not negative, halves to the even neighbour.\<close>

definition roundHalfEven :: "rat \<Rightarrow> int" where
  "roundHalfEven q =
     (let f = \<lfloor>q\<rfloor>; r = q - of_int f
      in if r < 1 / 2 then f else if 1 / 2 < r then f + 1 else if even f then f else f + 1)"

text \<open>
  Rounding to binary64: a significand of 53 bits at the exponent of the value, the exponent
  not below \<open>-1022\<close> (so that small values round on the subnormal grid of step \<open>2^-1074\<close>), and
  an infinity when the rounded magnitude reaches \<open>2^1024\<close>, that is, when its exponent is 1024
  or more.
\<close>

definition roundDouble :: "rat \<Rightarrow> double" where
  "roundDouble q =
     (if q = 0 then Finite 0
      else
        let e = max (floorLog2 \<bar>q\<bar>) (- 1022);
            quantum = pow2 (e - 52);
            r = of_int (roundHalfEven (\<bar>q\<bar> / quantum)) * quantum
        in if r = 0 then Finite 0
           else if 1024 \<le> floorLog2 r then (if 0 < q then PosInf else NegInf)
           else Finite (if 0 < q then r else - r))"

definition signedInf :: "bool \<Rightarrow> double" where
  "signedInf positive = (if positive then PosInf else NegInf)"

text \<open>\<^verbatim>\<open>x + y\<close>\<close>

fun dadd :: "double \<Rightarrow> double \<Rightarrow> double" where
  "dadd (Finite a) (Finite b) = roundDouble (a + b)"
| "dadd NaN _ = NaN"
| "dadd _ NaN = NaN"
| "dadd PosInf NegInf = NaN"
| "dadd NegInf PosInf = NaN"
| "dadd PosInf _ = PosInf"
| "dadd _ PosInf = PosInf"
| "dadd NegInf _ = NegInf"
| "dadd _ NegInf = NegInf"

fun dneg :: "double \<Rightarrow> double" where
  "dneg (Finite a) = Finite (- a)"
| "dneg PosInf = NegInf"
| "dneg NegInf = PosInf"
| "dneg NaN = NaN"

text \<open>\<^verbatim>\<open>x - y\<close>\<close>

definition dsub :: "double \<Rightarrow> double \<Rightarrow> double" where
  "dsub x y = dadd x (dneg y)"

text \<open>\<^verbatim>\<open>x * y\<close>\<close>

fun dmul :: "double \<Rightarrow> double \<Rightarrow> double" where
  "dmul (Finite a) (Finite b) = roundDouble (a * b)"
| "dmul NaN _ = NaN"
| "dmul _ NaN = NaN"
| "dmul (Finite a) PosInf = (if a = 0 then NaN else signedInf (0 < a))"
| "dmul (Finite a) NegInf = (if a = 0 then NaN else signedInf (a < 0))"
| "dmul PosInf (Finite b) = (if b = 0 then NaN else signedInf (0 < b))"
| "dmul NegInf (Finite b) = (if b = 0 then NaN else signedInf (b < 0))"
| "dmul PosInf PosInf = PosInf"
| "dmul NegInf NegInf = PosInf"
| "dmul PosInf NegInf = NegInf"
| "dmul NegInf PosInf = NegInf"

text \<open>\<^verbatim>\<open>x / y\<close>, a zero divisor being the positive zero.\<close>

fun ddiv :: "double \<Rightarrow> double \<Rightarrow> double" where
  "ddiv (Finite a) (Finite b) =
     (if b = 0 then (if a = 0 then NaN else signedInf (0 < a)) else roundDouble (a / b))"
| "ddiv NaN _ = NaN"
| "ddiv _ NaN = NaN"
| "ddiv (Finite a) _ = Finite 0"
| "ddiv PosInf (Finite b) = signedInf (0 \<le> b)"
| "ddiv NegInf (Finite b) = signedInf (b < 0)"
| "ddiv _ _ = NaN"

text \<open>\<^verbatim>\<open>x > y\<close>: false whenever an operand is \<open>NaN\<close>.\<close>

fun dgt :: "double \<Rightarrow> double \<Rightarrow> bool" where
  "dgt (Finite a) (Finite b) = (b < a)"
| "dgt NaN _ = False"
| "dgt _ NaN = False"
| "dgt PosInf PosInf = False"
| "dgt PosInf _ = True"
| "dgt _ PosInf = False"
| "dgt NegInf _ = False"
| "dgt _ NegInf = True"

text \<open>\<^verbatim>\<open>Math.max(x, y)\<close>: \<open>NaN\<close> when an operand is \<open>NaN\<close>.\<close>

definition dmax :: "double \<Rightarrow> double \<Rightarrow> double" where
  "dmax x y = (if x = NaN \<or> y = NaN then NaN else if dgt x y then x else y)"

text \<open>
  \<^verbatim>\<open>Math.pow(x, 2)\<close>. The engine computes the power with exponent 2 as the product \<^verbatim>\<open>x * x\<close>,
  rounded once.
\<close>

definition dsquare :: "double \<Rightarrow> double" where
  "dsquare x = dmul x x"

text \<open>\<^verbatim>\<open>Math.round(x)\<close>: the nearest integer, halves upwards, of the exact value of \<open>x\<close>.\<close>

fun jsRound :: "double \<Rightarrow> double" where
  "jsRound (Finite q) = Finite (of_int \<lfloor>q + 1 / 2\<rfloor>)"
| "jsRound x = x"

text \<open>The number for a count or a size; exact below \<open>2^53\<close>.\<close>

definition numberOfNat :: "nat \<Rightarrow> double" where
  "numberOfNat n = roundDouble (of_nat n)"

section \<open>Collaborators: the image codec\<close>

text \<open>
  JavaScript strings are sequences of UTF-16 code units; \<^verbatim>\<open>.length\<close> counts code units.
\<close>

type_synonym jsstring = "16 word list"

text \<open>A thrown \<^verbatim>\<open>Error\<close> with its message. Every rejected promise of the source is an \<open>Inl\<close>.\<close>

datatype error = Error jsstring

definition bindE :: "error + 'a \<Rightarrow> ('a \<Rightarrow> error + 'b) \<Rightarrow> error + 'b" where
  "bindE m f = (case m of Inl e \<Rightarrow> Inl e | Inr v \<Rightarrow> f v)"

text \<open>An encoded image (PNG or whatever was uploaded), as a Node Buffer.\<close>

type_synonym bytes = "byte list"

text \<open>\<^verbatim>\<open>metadata.width\<close> and \<^verbatim>\<open>metadata.height\<close> may be \<^verbatim>\<open>undefined\<close>.\<close>

record metadata =
  metaWidth :: "nat option"
  metaHeight :: "nat option"

text \<open>
  The calls of the \<^verbatim>\<open>sharp\<close> library the pipeline makes, each one a chain ending in
  \<^verbatim>\<open>.toBuffer()\<close> that either resolves or rejects. The library is not part of the repository,
  so its operations are parameters of the model:
  \<^item> \<open>sharpRaw\<close>: \<^verbatim>\<open>sharp(buf).raw().toBuffer({resolveWithObject: true})\<close>;
  \<^item> \<open>sharpFromRaw\<close>: \<^verbatim>\<open>sharp(outputData, {raw: {width, height, channels}}).png().toBuffer()\<close>;
  \<^item> \<open>sharpRotate\<close>: \<^verbatim>\<open>sharp(buf).rotate(angle, {background: white}).png().toBuffer()\<close>;
  \<^item> \<open>sharpSimplified\<close>: \<^verbatim>\<open>sharp(buf).grayscale().normalize().sharpen().png().toBuffer()\<close>;
  \<^item> the others: \<^verbatim>\<open>sharp(buf).op(args).png().toBuffer()\<close> for the operation named.
\<close>

record sharp =
  sharpMetadata :: "bytes \<Rightarrow> error + metadata"
  sharpGrayscale :: "bytes \<Rightarrow> error + bytes"
  sharpNormalize :: "bytes \<Rightarrow> error + bytes"
  sharpLinear :: "double \<Rightarrow> double \<Rightarrow> bytes \<Rightarrow> error + bytes"
  sharpMedian :: "nat \<Rightarrow> bytes \<Rightarrow> error + bytes"
  sharpSharpen :: "double \<Rightarrow> bytes \<Rightarrow> error + bytes"
  sharpResize :: "double \<Rightarrow> double \<Rightarrow> bytes \<Rightarrow> error + bytes"
  sharpRotate :: "int \<Rightarrow> bytes \<Rightarrow> error + bytes"
  sharpSimplified :: "bytes \<Rightarrow> error + bytes"
  sharpRaw :: "bytes \<Rightarrow> error + rawImage"
  sharpFromRaw :: "rawImage \<Rightarrow> error + bytes"

section \<open>MorphologyEngine: dilation\<close>

text \<open>
  The position \<open>(nx, ny)\<close> lies within the image and its pixel is dark in the source: the first
  channel is below 128. A position outside the image is not dark.
\<close>

definition darkAt :: "rawImage \<Rightarrow> int \<Rightarrow> int \<Rightarrow> bool" where
  "darkAt img nx ny \<longleftrightarrow>
     inBounds img nx ny \<and> data img ! pixelIndex img (nat nx) (nat ny) < 128"

text \<open>
  The body of the \<open>(y, x)\<close> loops of \<^verbatim>\<open>applyDilation\<close>: a dark source pixel (first channel
  below 128) darkens every in-bounds pixel of its square neighbourhood in the output.
\<close>

definition dilationScatter :: "rawImage \<Rightarrow> int \<Rightarrow> nat \<Rightarrow> nat \<Rightarrow> byte list \<Rightarrow> byte list" where
  "dilationScatter img half x y out =
     (if lessThan128 (readByte (data img) (pixelIndex img x y)) then
        fold (\<lambda>dy out1.
          fold (\<lambda>dx out2.
            let ny = int y + dy; nx = int x + dx in
            if inBounds img nx ny
            then fillPixel (channels img) (pixelIndex img (nat nx) (nat ny)) 0 out2
            else out2)
          [- half .. half] out1)
        [- half .. half] out
      else out)"

text \<open>
  The pixel loops of \<^verbatim>\<open>applyDilation\<close>, from the decoded image to the raw output handed to
  the encoder. \<open>kernelSize\<close> is a size (a natural number); \<open>half = floor (kernelSize / 2)\<close>.
\<close>

definition dilationPixels :: "rawImage \<Rightarrow> nat \<Rightarrow> rawImage" where
  "dilationPixels img kernelSize =
     (let half = int (kernelSize div 2);
          outputData = replicate (length (data img)) (255 :: byte);
          outputData' =
            fold (\<lambda>y out. fold (\<lambda>x out'. dilationScatter img half x y out') [0..<width img] out)
              [0..<height img] outputData
      in \<lparr>data = outputData', width = width img, height = height img, channels = channels img\<rparr>)"

text \<open>\<^verbatim>\<open>applyDilation(imageBuffer, kernelSize)\<close>: decode, run the pixel loops, encode as PNG.\<close>

definition applyDilation :: "sharp \<Rightarrow> bytes \<Rightarrow> nat \<Rightarrow> error + bytes" where
  "applyDilation sh imageBuffer kernelSize =
     bindE (sharpRaw sh imageBuffer) (\<lambda>img. sharpFromRaw sh (dilationPixels img kernelSize))"

section \<open>MorphologyEngine: erosion\<close>

text \<open>
  One probe of the neighbourhood scan of \<^verbatim>\<open>applyErosion\<close>: an in-bounds neighbour whose first
  channel is at least 128 clears \<open>allBlack\<close>, and so does an out-of-bounds neighbour.
\<close>

definition erosionProbe :: "rawImage \<Rightarrow> nat \<Rightarrow> nat \<Rightarrow> int \<Rightarrow> int \<Rightarrow> bool \<Rightarrow> bool" where
  "erosionProbe img x y dy dx allBlack =
     (let ny = int y + dy; nx = int x + dx in
      if inBounds img nx ny
      then (if atLeast128 (readByte (data img) (pixelIndex img (nat nx) (nat ny)))
            then False else allBlack)
      else False)"

text \<open>\<^verbatim>\<open>for (let dx = -half; dx <= half && allBlack; dx++)\<close>, entered at \<open>dx\<close>.\<close>

function erosionScanRow ::
  "rawImage \<Rightarrow> int \<Rightarrow> nat \<Rightarrow> nat \<Rightarrow> int \<Rightarrow> int \<Rightarrow> bool \<Rightarrow> bool" where
  "erosionScanRow img half x y dy dx allBlack =
     (if dx \<le> half \<and> allBlack
      then erosionScanRow img half x y dy (dx + 1) (erosionProbe img x y dy dx allBlack)
      else allBlack)"
  by pat_completeness auto
termination
  by (relation "measure (\<lambda>(img, half, x, y, dy, dx, allBlack). nat (half + 1 - dx))") auto

text \<open>\<^verbatim>\<open>for (let dy = -half; dy <= half && allBlack; dy++)\<close>, entered at \<open>dy\<close>.\<close>

function erosionScan ::
  "rawImage \<Rightarrow> int \<Rightarrow> nat \<Rightarrow> nat \<Rightarrow> int \<Rightarrow> bool \<Rightarrow> bool" where
  "erosionScan img half x y dy allBlack =
     (if dy \<le> half \<and> allBlack
      then erosionScan img half x y (dy + 1) (erosionScanRow img half x y dy (- half) allBlack)
      else allBlack)"
  by pat_completeness auto
termination
  by (relation "measure (\<lambda>(img, half, x, y, dy, allBlack). nat (half + 1 - dy))") auto

text \<open>The body of the \<open>(y, x)\<close> loops of \<^verbatim>\<open>applyErosion\<close>.\<close>

definition erosionGather :: "rawImage \<Rightarrow> int \<Rightarrow> nat \<Rightarrow> nat \<Rightarrow> byte list \<Rightarrow> byte list" where
  "erosionGather img half x y out =
     (if erosionScan img half x y (- half) True
      then fillPixel (channels img) (pixelIndex img x y) 0 out
      else out)"

definition erosionPixels :: "rawImage \<Rightarrow> nat \<Rightarrow> rawImage" where
  "erosionPixels img kernelSize =
     (let half = int (kernelSize div 2);
          outputData = replicate (length (data img)) (255 :: byte);
          outputData' =
            fold (\<lambda>y out. fold (\<lambda>x out'. erosionGather img half x y out') [0..<width img] out)
              [0..<height img] outputData
      in \<lparr>data = outputData', width = width img, height = height img, channels = channels img\<rparr>)"


declare erosionScanRow.simps [simp del] erosionScan.simps [simp del]

text \<open>\<^verbatim>\<open>applyErosion(imageBuffer, kernelSize)\<close>: decode, run the pixel loops, encode as PNG.\<close>

definition applyErosion :: "sharp \<Rightarrow> bytes \<Rightarrow> nat \<Rightarrow> error + bytes" where
  "applyErosion sh imageBuffer kernelSize =
     bindE (sharpRaw sh imageBuffer) (\<lambda>img. sharpFromRaw sh (erosionPixels img kernelSize))"

definition applyMorphologicalClosing :: "sharp \<Rightarrow> bytes \<Rightarrow> nat \<Rightarrow> error + bytes" where
  "applyMorphologicalClosing sh imageBuffer kernelSize =
     bindE (applyDilation sh imageBuffer kernelSize) (\<lambda>dilated. applyErosion sh dilated kernelSize)"

definition applyMorphologicalOpening :: "sharp \<Rightarrow> bytes \<Rightarrow> nat \<Rightarrow> error + bytes" where
  "applyMorphologicalOpening sh imageBuffer kernelSize =
     bindE (applyErosion sh imageBuffer kernelSize) (\<lambda>eroded. applyDilation sh eroded kernelSize)"

section \<open>AdaptiveThresholder\<close>

text \<open>
  The numbers of \<^verbatim>\<open>applyAdaptiveThreshold\<close> are IEEE doubles in the source. The integral table
  holds sums of bytes, which are integers and exact in a double below \<open>2^53\<close>, so the table is
  modelled over \<open>int\<close>; the quotient \<^verbatim>\<open>sum / area\<close> and the threshold are modelled exactly, over
  \<open>rat\<close>. \<open>blockSize\<close> is a size (a natural number) and \<open>C\<close> an integer, as in every call the
  repository makes (21/8 and 31/12). Reads of \<open>data\<close> are in range for a well-formed image.
\<close>

definition firstChannel :: "rawImage \<Rightarrow> nat \<Rightarrow> nat \<Rightarrow> int" where
  "firstChannel img x y = int (unat (data img ! pixelIndex img x y))"

text \<open>
  One row of the table: \<^verbatim>\<open>rowSum += data[idx]; integral[(y+1)*(width+1) + (x+1)] =
  integral[y*(width+1) + (x+1)] + rowSum\<close>, for \<open>x\<close> from 0 to \<open>width - 1\<close>.
\<close>

definition integralRow :: "rawImage \<Rightarrow> nat \<Rightarrow> int list \<Rightarrow> int list" where
  "integralRow img y integral =
     snd (fold (\<lambda>x (rowSum, integ).
            let rowSum' = rowSum + firstChannel img x y
            in (rowSum',
                integ[(y + 1) * (width img + 1) + (x + 1) :=
                        integ ! (y * (width img + 1) + (x + 1)) + rowSum']))
          [0..<width img] (0, integral))"

definition integralTable :: "rawImage \<Rightarrow> int list" where
  "integralTable img =
     fold (integralRow img) [0..<height img]
       (replicate ((width img + 1) * (height img + 1)) 0)"

text \<open>The body of the second \<open>(y, x)\<close> loop: window, area, table lookup, mean, comparison.\<close>

definition thresholdAt :: "rawImage \<Rightarrow> int list \<Rightarrow> int \<Rightarrow> int \<Rightarrow> nat \<Rightarrow> nat \<Rightarrow> byte" where
  "thresholdAt img integral halfBlock C x y =
     (let x1 = max 0 (int x - halfBlock);
          y1 = max 0 (int y - halfBlock);
          x2 = min (int (width img) - 1) (int x + halfBlock);
          y2 = min (int (height img) - 1) (int y + halfBlock);
          area = (x2 - x1 + 1) * (y2 - y1 + 1);
          W = int (width img) + 1;
          sum = integral ! nat ((y2 + 1) * W + (x2 + 1))
              - integral ! nat ((y2 + 1) * W + x1)
              - integral ! nat (y1 * W + (x2 + 1))
              + integral ! nat (y1 * W + x1);
          localMean = (of_int sum :: rat) / of_int area;
          pixelValue = firstChannel img x y;
          threshold = localMean - of_int C
      in if of_int pixelValue > threshold then 255 else 0)"

definition thresholdPixels :: "rawImage \<Rightarrow> nat \<Rightarrow> int \<Rightarrow> rawImage" where
  "thresholdPixels img blockSize C =
     (let integral = integralTable img;
          outputData = replicate (length (data img)) (0 :: byte);
          halfBlock = int (blockSize div 2);
          outputData' =
            fold (\<lambda>y out. fold (\<lambda>x out'.
                    fillPixel (channels img) (pixelIndex img x y)
                      (thresholdAt img integral halfBlock C x y) out')
                  [0..<width img] out)
              [0..<height img] outputData
      in \<lparr>data = outputData', width = width img, height = height img, channels = channels img\<rparr>)"

definition applyAdaptiveThreshold :: "sharp \<Rightarrow> bytes \<Rightarrow> nat \<Rightarrow> int \<Rightarrow> error + bytes" where
  "applyAdaptiveThreshold sh imageBuffer blockSize C =
     bindE (sharpRaw sh imageBuffer) (\<lambda>img. sharpFromRaw sh (thresholdPixels img blockSize C))"

text \<open>
  The rule in the words of the specification, by direct summation: the mean of the first
  channel over the pixels of the image that lie in a square window of \<open>side\<close> pixels starting
  \<open>lead\<close> pixels before the pixel in each direction (the window clipped at the borders, the
  mean taken over the pixels that remain); the pixel is 255 if its own intensity exceeds that
  mean minus \<open>C\<close>, and 0 otherwise. A window of odd side \<open>b\<close> centred on the pixel has
  \<open>lead = (b - 1) div 2\<close>.
\<close>

text \<open>The sum of the first channel over the columns \<open>x1 \<le> i < x2\<close> of the rows \<open>y1 \<le> j < y2\<close>.\<close>

definition rectSum :: "rawImage \<Rightarrow> nat \<Rightarrow> nat \<Rightarrow> nat \<Rightarrow> nat \<Rightarrow> int" where
  "rectSum img x1 x2 y1 y2 = (\<Sum>j = y1..<y2. \<Sum>i = x1..<x2. firstChannel img i j)"

definition inWindow :: "nat \<Rightarrow> nat \<Rightarrow> nat \<Rightarrow> nat \<Rightarrow> bool" where
  "inWindow side lead centre i \<longleftrightarrow>
     int centre - int lead \<le> int i \<and> int i < int centre - int lead + int side"

definition windowMean :: "rawImage \<Rightarrow> nat \<Rightarrow> nat \<Rightarrow> nat \<Rightarrow> nat \<Rightarrow> rat" where
  "windowMean img side lead x y =
     (let xs = filter (inWindow side lead x) [0..<width img];
          ys = filter (inWindow side lead y) [0..<height img]
      in of_int (sum_list (map (\<lambda>j. sum_list (map (\<lambda>i. firstChannel img i j) xs)) ys))
         / of_nat (length xs * length ys))"

definition thresholdSpec :: "rawImage \<Rightarrow> nat \<Rightarrow> nat \<Rightarrow> int \<Rightarrow> nat \<Rightarrow> nat \<Rightarrow> byte" where
  "thresholdSpec img side lead C x y =
     (if of_int (firstChannel img x y) > windowMean img side lead x y - of_int C then 255 else 0)"


section \<open>SkewEstimator\<close>

text \<open>
  The inner loop of \<^verbatim>\<open>estimateSkewAngle\<close>: \<^verbatim>\<open>rowSum += rotData[idx] < 128 ? 1 : 0\<close> over the
  pixels of row \<open>y\<close>, a sum of numbers.
\<close>

definition darkRowCount :: "rawImage \<Rightarrow> nat \<Rightarrow> double" where
  "darkRowCount img y =
     fold (\<lambda>x rowSum. dadd rowSum
              (if lessThan128 (readByte (data img) (pixelIndex img x y)) then Finite 1 else Finite 0))
       [0..<width img] (Finite 0)"

definition rowSums :: "rawImage \<Rightarrow> double list" where
  "rowSums img = map (darkRowCount img) [0..<height img]"

text \<open>
  \<^verbatim>\<open>mean = rowSums.reduce((a, b) => a + b, 0) / rowSums.length\<close> and
  \<^verbatim>\<open>variance = rowSums.reduce((sum, val) => sum + Math.pow(val - mean, 2), 0) / rowSums.length\<close>,
  every operation rounded as the source rounds it. For an image without rows both are \<open>NaN\<close>.
\<close>

definition rowVariance :: "double list \<Rightarrow> double" where
  "rowVariance rs =
     (let mean = ddiv (foldl (\<lambda>a b. dadd a b) (Finite 0) rs) (numberOfNat (length rs))
      in ddiv (foldl (\<lambda>sum val. dadd sum (dsquare (dsub val mean))) (Finite 0) rs)
           (numberOfNat (length rs)))"

definition testAngles :: "int list" where
  "testAngles = [-5, -4, -3, -2, -1, 0, 1, 2, 3, 4, 5]"

text \<open>
  The loop over the candidate angles, with the state \<open>(bestAngle, maxVariance)\<close>. A rejected
  rotation or decode leaves the loop with the error.
\<close>

fun skewLoop :: "sharp \<Rightarrow> bytes \<Rightarrow> int list \<Rightarrow> int \<times> double \<Rightarrow> error + (int \<times> double)" where
  "skewLoop sh imageBuffer [] st = Inr st"
| "skewLoop sh imageBuffer (angle # rest) (bestAngle, maxVariance) =
     bindE (sharpRotate sh angle imageBuffer) (\<lambda>rotatedBuffer.
     bindE (sharpRaw sh rotatedBuffer) (\<lambda>rot.
       let variance = rowVariance (rowSums rot)
       in skewLoop sh imageBuffer rest
            (if dgt variance maxVariance then (angle, variance) else (bestAngle, maxVariance))))"

text \<open>\<^verbatim>\<open>estimateSkewAngle\<close>: the \<^verbatim>\<open>catch\<close> turns every error into the angle 0.\<close>

definition estimateSkewAngle :: "sharp \<Rightarrow> bytes \<Rightarrow> int" where
  "estimateSkewAngle sh imageBuffer =
     (case bindE (sharpRaw sh imageBuffer) (\<lambda>_. skewLoop sh imageBuffer testAngles (0, Finite 0)) of
        Inl e \<Rightarrow> 0
      | Inr (bestAngle, maxVariance) \<Rightarrow> bestAngle)"

text \<open>
  \<^verbatim>\<open>Math.abs(skewAngle) < 0.5\<close> on an angle that is one of the integer candidates or 0.
\<close>

definition applyDeskew :: "sharp \<Rightarrow> bytes \<Rightarrow> error + bytes" where
  "applyDeskew sh imageBuffer =
     (let skewAngle = estimateSkewAngle sh imageBuffer
      in if \<bar>of_int skewAngle :: rat\<bar> < 1 / 2 then Inr imageBuffer
         else sharpRotate sh skewAngle imageBuffer)"

text \<open>
  The variance the loop computes for a candidate, when the rotation and its decoding succeed;
  the specification's view of one candidate.
\<close>

definition candidateVariance :: "sharp \<Rightarrow> bytes \<Rightarrow> int \<Rightarrow> double option" where
  "candidateVariance sh imageBuffer angle =
     (case bindE (sharpRotate sh angle imageBuffer) (sharpRaw sh) of
        Inl e \<Rightarrow> None
      | Inr rot \<Rightarrow> Some (rowVariance (rowSums rot)))"

text \<open>The variance of a candidate, 0 when the candidate fails.\<close>

definition varianceOf :: "sharp \<Rightarrow> bytes \<Rightarrow> int \<Rightarrow> double" where
  "varianceOf sh imageBuffer angle =
     (case candidateVariance sh imageBuffer angle of None \<Rightarrow> Finite 0 | Some v \<Rightarrow> v)"

text \<open>
  The rule in the words of the specification: the candidate of maximal variance, the first one
  in the order of the list where several reach the maximum. A candidate is maximal when its
  variance is a number and the variance of no candidate is greater.
\<close>

definition firstMaximiser :: "(int \<Rightarrow> double) \<Rightarrow> int list \<Rightarrow> int" where
  "firstMaximiser f as = hd (filter (\<lambda>a. f a \<noteq> NaN \<and> (\<forall>b\<in>set as. \<not> dgt (f b) (f a))) as)"

section \<open>PreprocessPipeline\<close>

text \<open>\<^verbatim>\<open>metadata.width || 800\<close>: the default replaces \<^verbatim>\<open>undefined\<close> and 0.\<close>

definition orDefault :: "nat option \<Rightarrow> nat \<Rightarrow> nat" where
  "orDefault v d = (case v of None \<Rightarrow> d | Some n \<Rightarrow> if n = 0 then d else n)"

text \<open>
  Step 6, the conditional upscale: \<^verbatim>\<open>scaleFactor = Math.max(1000 / width, 1000 / height, 1.5)\<close>,
  \<^verbatim>\<open>newWidth = Math.round(width * scaleFactor)\<close>, \<^verbatim>\<open>newHeight = Math.round(height * scaleFactor)\<close>,
  in the arithmetic of the source.
\<close>

definition resizeStep :: "sharp \<Rightarrow> metadata \<Rightarrow> bytes \<Rightarrow> error + bytes" where
  "resizeStep sh md processedBuffer =
     (let width = orDefault (metaWidth md) 800;
          height = orDefault (metaHeight md) 600
      in if width < 1000 \<or> height < 1000 then
           let scaleFactor = dmax (dmax (ddiv (Finite 1000) (numberOfNat width))
                                        (ddiv (Finite 1000) (numberOfNat height)))
                                  (Finite (3 / 2));
               newWidth = jsRound (dmul (numberOfNat width) scaleFactor);
               newHeight = jsRound (dmul (numberOfNat height) scaleFactor)
           in sharpResize sh newWidth newHeight processedBuffer
         else Inr processedBuffer)"

text \<open>The body of the \<^verbatim>\<open>try\<close> block of \<^verbatim>\<open>preprocessImageForOCR\<close>: metadata and the ten steps.\<close>

definition tenStages :: "sharp \<Rightarrow> bytes \<Rightarrow> int \<Rightarrow> error + bytes" where
  "tenStages sh imageBuffer attempt =
     bindE (sharpMetadata sh imageBuffer) (\<lambda>md.
     bindE (sharpGrayscale sh imageBuffer) (\<lambda>b1.
     bindE (sharpNormalize sh b1) (\<lambda>b2.
     bindE (sharpLinear sh (if attempt = 1 then roundDouble (13 / 10) else Finite (3 / 2))
              (Finite (- 20)) b2) (\<lambda>b3.
     bindE (sharpMedian sh 3 b3) (\<lambda>b4.
     bindE (sharpSharpen sh (Finite (3 / 2)) b4) (\<lambda>b5.
     bindE (resizeStep sh md b5) (\<lambda>b6.
     bindE (applyDeskew sh b6) (\<lambda>b7.
     bindE (applyAdaptiveThreshold sh b7 (if attempt = 1 then 21 else 31)
              (if attempt = 1 then 8 else 12)) (\<lambda>b8.
     bindE (applyMorphologicalClosing sh b8 (if attempt = 1 then 3 else 5)) (\<lambda>b9.
     applyMorphologicalOpening sh b9 (if attempt = 1 then 2 else 3)))))))))))"

text \<open>
  \<^verbatim>\<open>preprocessImageForOCR\<close>: the \<^verbatim>\<open>catch\<close> block retries with the simplified chain only when
  \<^verbatim>\<open>attempt < 2\<close>, swallows the failure of that retry, and then returns the promise of the
  grayscale-only chain, which is outside every \<^verbatim>\<open>try\<close>.
\<close>

definition preprocessImageForOCR :: "sharp \<Rightarrow> bytes \<Rightarrow> int \<Rightarrow> error + bytes" where
  "preprocessImageForOCR sh imageBuffer attempt =
     (case tenStages sh imageBuffer attempt of
        Inr processedBuffer \<Rightarrow> Inr processedBuffer
      | Inl err \<Rightarrow>
          if attempt < 2 then
            (case sharpSimplified sh imageBuffer of
               Inr simplifiedBuffer \<Rightarrow> Inr simplifiedBuffer
             | Inl fallbackError \<Rightarrow> sharpGrayscale sh imageBuffer)
          else sharpGrayscale sh imageBuffer)"


section \<open>Collaborators: text completion, recognition, JSON\<close>

text \<open>
  The four prompts sent to \<^verbatim>\<open>groq.chat.completions.create\<close>. Each prompt text is a fixed template
  around the arguments kept here; model, token limit and temperature are fixed per kind.
\<close>

datatype request =
    MergeRequest jsstring nat
  | CleanRequest jsstring bool bool
  | CorrectRequest jsstring
  | HeadingRequest jsstring

text \<open>
  \<open>apiKey\<close>: whether \<^verbatim>\<open>GROQ_API_KEY\<close> is set (and not empty). \<open>complete\<close>: the completion call,
  which throws (\<open>Inl\<close>) or yields \<^verbatim>\<open>completion.choices[0]?.message?.content\<close>, \<open>None\<close> when that is
  \<^verbatim>\<open>undefined\<close> or \<^verbatim>\<open>null\<close>.
\<close>

record groq =
  apiKey :: bool
  complete :: "request \<Rightarrow> error + jsstring option"

text \<open>\<^verbatim>\<open>String.prototype.trim\<close>: white space and line terminators of ECMAScript.\<close>

definition isWhiteSpace :: "16 word \<Rightarrow> bool" where
  "isWhiteSpace c \<longleftrightarrow>
     c \<in> {0x9, 0xA, 0xB, 0xC, 0xD, 0x20, 0xA0, 0x1680, 0x2028, 0x2029, 0x202F, 0x205F, 0x3000, 0xFEFF}
     \<or> (0x2000 \<le> c \<and> c \<le> 0x200A)"

definition trim :: "jsstring \<Rightarrow> jsstring" where
  "trim s = rev (dropWhile isWhiteSpace (rev (dropWhile isWhiteSpace s)))"

text \<open>\<^verbatim>\<open>content?.trim()\<close> followed by a falsy test: \<open>None\<close> when undefined or empty after trimming.\<close>

definition trimmedContent :: "jsstring option \<Rightarrow> jsstring option" where
  "trimmedContent content =
     (case content of
        None \<Rightarrow> None
      | Some c \<Rightarrow> (let t = trim c in if t = [] then None else Some t))"

text \<open>\<^verbatim>\<open>xs.join(sep)\<close>\<close>

fun joinWith :: "jsstring \<Rightarrow> jsstring list \<Rightarrow> jsstring" where
  "joinWith sep [] = []"
| "joinWith sep [x] = x"
| "joinWith sep (x # y # ys) = x @ sep @ joinWith sep (y # ys)"

text \<open>\<^verbatim>\<open>s.slice(a, b)\<close> for \<open>0 \<le> a\<close>, with the end clamped to the length.\<close>

definition slice :: "jsstring \<Rightarrow> nat \<Rightarrow> nat \<Rightarrow> jsstring" where
  "slice s a b = take (b - a) (drop a s)"

section \<open>TextCorrector\<close>

definition correctArabicOCRText :: "groq \<Rightarrow> jsstring \<Rightarrow> jsstring" where
  "correctArabicOCRText g rawText =
     (if \<not> apiKey g then rawText
      else if rawText = [] \<or> length rawText < 5 then rawText
      else case complete g (CorrectRequest rawText) of
             Inl err \<Rightarrow> rawText
           | Inr content \<Rightarrow>
               (case trimmedContent content of
                  None \<Rightarrow> rawText
                | Some correctedText \<Rightarrow> correctedText))"

section \<open>RecognitionAdapter\<close>

definition NO_TEXT_SENTINEL :: jsstring where
  "NO_TEXT_SENTINEL = [0x5B, 0x635, 0x648, 0x631, 0x629, 0x20, 0x2D, 0x20, 0x644, 0x645, 0x20, 0x64A, 0x62A, 0x645, 0x20, 0x627, 0x644, 0x639, 0x62B, 0x648, 0x631, 0x20, 0x639, 0x644, 0x649, 0x20, 0x646, 0x635, 0x20, 0x642, 0x627, 0x628, 0x644, 0x20, 0x644, 0x644, 0x642, 0x631, 0x627, 0x621, 0x629, 0x20, 0x641, 0x64A, 0x20, 0x627, 0x644, 0x635, 0x648, 0x631, 0x629, 0x5D]"

definition FAILED_SENTINEL :: jsstring where
  "FAILED_SENTINEL = [0x5B, 0x635, 0x648, 0x631, 0x629, 0x20, 0x2D, 0x20, 0x641, 0x634, 0x644, 0x20, 0x641, 0x64A, 0x20, 0x627, 0x633, 0x62A, 0x62E, 0x631, 0x627, 0x62C, 0x20, 0x627, 0x644, 0x646, 0x635, 0x20, 0x645, 0x646, 0x20, 0x627, 0x644, 0x635, 0x648, 0x631, 0x629, 0x5D]"

definition OCR_HEADER :: jsstring where
  "OCR_HEADER = [0x5B, 0x646, 0x635, 0x20, 0x645, 0x633, 0x62A, 0x62E, 0x631, 0x62C, 0x20, 0x645, 0x646, 0x20, 0x627, 0x644, 0x635, 0x648, 0x631, 0x629, 0x20, 0x628, 0x627, 0x633, 0x62A, 0x62E, 0x62F, 0x627, 0x645, 0x20, 0x4F, 0x43, 0x52, 0x20, 0x627, 0x644, 0x645, 0x62D, 0x633, 0x651, 0x646, 0x5D, 0x3A, 0xA]"

text \<open>
  \<open>decodeBase64\<close> is \<^verbatim>\<open>Buffer.from(base64Data, "base64")\<close>, which never throws on a string;
  \<open>recognize\<close> is \<^verbatim>\<open>Tesseract.recognize(buffer, "ara+eng", ...)\<close> followed by \<^verbatim>\<open>.data.text\<close>.
\<close>

record ocr =
  decodeBase64 :: "jsstring \<Rightarrow> bytes"
  recognize :: "bytes \<Rightarrow> error + jsstring"

text \<open>\<^verbatim>\<open>!rawText || rawText.length < 3\<close>\<close>

definition tooShort :: "jsstring \<Rightarrow> bool" where
  "tooShort rawText \<longleftrightarrow> rawText = [] \<or> length rawText < 3"

text \<open>
  \<^verbatim>\<open>extractTextFromImageWithOCR\<close>. Besides the returned string, the model returns the \<open>attempt\<close>
  arguments of the calls of \<^verbatim>\<open>preprocessImageForOCR\<close> it made, in order. The outer \<^verbatim>\<open>catch\<close>
  turns every error into the failure sentinel.
\<close>

definition extractTextFromImageWithOCR ::
  "sharp \<Rightarrow> ocr \<Rightarrow> groq \<Rightarrow> jsstring \<Rightarrow> jsstring \<times> int list" where
  "extractTextFromImageWithOCR sh oc g base64Data =
     (let originalBuffer = decodeBase64 oc base64Data in
      case bindE (preprocessImageForOCR sh originalBuffer 1) (recognize oc) of
        Inl err \<Rightarrow> (FAILED_SENTINEL, [1])
      | Inr text1 \<Rightarrow>
          let rawText = trim text1 in
          if tooShort rawText then
            (case bindE (preprocessImageForOCR sh originalBuffer 2) (recognize oc) of
               Inl err \<Rightarrow> (FAILED_SENTINEL, [1, 2])
             | Inr text2 \<Rightarrow>
                 let rawText2 = trim text2 in
                 if tooShort rawText2 then (NO_TEXT_SENTINEL, [1, 2])
                 else (OCR_HEADER @ correctArabicOCRText g rawText2, [1, 2]))
          else (OCR_HEADER @ correctArabicOCRText g rawText, [1]))"

section \<open>DocumentMerger\<close>

definition MAX_CHARS_PER_CHUNK :: nat where
  "MAX_CHARS_PER_CHUNK = 6000"

definition PERIOD :: "16 word" where "PERIOD = 0x2E"
definition NEWLINE :: "16 word" where "NEWLINE = 0xA"

text \<open>The largest index below \<open>n\<close> that holds \<open>ch\<close>, or \<open>-1\<close>.\<close>

fun lastIndexBelow :: "jsstring \<Rightarrow> 16 word \<Rightarrow> nat \<Rightarrow> int" where
  "lastIndexBelow s ch 0 = - 1"
| "lastIndexBelow s ch (Suc i) = (if s ! i = ch then int i else lastIndexBelow s ch i)"

text \<open>
  \<^verbatim>\<open>s.lastIndexOf(ch, fromIndex)\<close> for a one-character \<open>ch\<close> and \<open>fromIndex \<ge> 0\<close>: the search
  starts at \<open>min fromIndex (length - 1)\<close>, that index included, and goes backwards.
\<close>

definition lastIndexOf :: "jsstring \<Rightarrow> 16 word \<Rightarrow> nat \<Rightarrow> int" where
  "lastIndexOf s ch fromIndex = lastIndexBelow s ch (min (fromIndex + 1) (length s))"

text \<open>The body of the \<^verbatim>\<open>while\<close> loop up to the final value of \<open>endPos\<close>.\<close>

definition chunkEnd :: "jsstring \<Rightarrow> nat \<Rightarrow> nat" where
  "chunkEnd rawText currentPos =
     (let endPos = min (currentPos + MAX_CHARS_PER_CHUNK) (length rawText) in
      if endPos < length rawText then
        let lastPeriod = lastIndexOf rawText PERIOD endPos;
            lastNewline = lastIndexOf rawText NEWLINE endPos;
            breakPoint = max lastPeriod lastNewline
        in if breakPoint > int currentPos + int MAX_CHARS_PER_CHUNK div 2
           then nat (breakPoint + 1) else endPos
      else endPos)"

text \<open>
  \<^verbatim>\<open>while (currentPos < rawText.length) { ...; chunks.push(rawText.slice(currentPos, endPos));
  currentPos = endPos; }\<close>
\<close>

function chunkLoop :: "jsstring \<Rightarrow> nat \<Rightarrow> jsstring list \<Rightarrow> jsstring list" where
  "chunkLoop rawText currentPos chunks =
     (if currentPos < length rawText
      then chunkLoop rawText (chunkEnd rawText currentPos)
             (chunks @ [slice rawText currentPos (chunkEnd rawText currentPos)])
      else chunks)"
  by pat_completeness auto
termination
proof (relation "measure (\<lambda>(rawText, currentPos, chunks). length rawText - currentPos)")
  show "wf (measure (\<lambda>(rawText, currentPos, chunks). length rawText - currentPos))"
    by simp
next
  fix rawText :: jsstring and currentPos :: nat and chunks :: "jsstring list"
  assume lt: "currentPos < length rawText"
  have "currentPos < chunkEnd rawText currentPos"
    using lt unfolding chunkEnd_def MAX_CHARS_PER_CHUNK_def Let_def
    by (auto split: if_splits)
  then show "((rawText, chunkEnd rawText currentPos,
               chunks @ [slice rawText currentPos (chunkEnd rawText currentPos)]),
              (rawText, currentPos, chunks))
             \<in> measure (\<lambda>(rawText, currentPos, chunks). length rawText - currentPos)"
    using lt by simp
qed

declare chunkLoop.simps [simp del]

text \<open>The chunks of a text: the loop from position 0 with no chunks.\<close>

definition splitIntoChunks :: "jsstring \<Rightarrow> jsstring list" where
  "splitIntoChunks rawText = chunkLoop rawText 0 []"

definition processSingleChunk :: "groq \<Rightarrow> jsstring \<Rightarrow> nat \<Rightarrow> jsstring" where
  "processSingleChunk g rawText numPages =
     (case complete g (MergeRequest rawText numPages) of
        Inl err \<Rightarrow> rawText
      | Inr content \<Rightarrow>
          (case trimmedContent content of None \<Rightarrow> rawText | Some mergedText \<Rightarrow> mergedText))"

definition cleanPDFChunk :: "groq \<Rightarrow> jsstring \<Rightarrow> bool \<Rightarrow> bool \<Rightarrow> error + jsstring" where
  "cleanPDFChunk g chunk isFirst isLast =
     bindE (complete g (CleanRequest chunk isFirst isLast)) (\<lambda>content.
       Inr (case trimmedContent content of None \<Rightarrow> chunk | Some cleaned \<Rightarrow> cleaned))"

definition smartMergeMultiPagePDF :: "groq \<Rightarrow> jsstring \<Rightarrow> nat \<Rightarrow> jsstring" where
  "smartMergeMultiPagePDF g rawText numPages =
     (if \<not> apiKey g then rawText
      else if rawText = [] \<or> length rawText < 50 then rawText
      else if length rawText \<le> MAX_CHARS_PER_CHUNK then processSingleChunk g rawText numPages
      else
        let chunks = splitIntoChunks rawText;
            processedChunks =
              map (\<lambda>i. case cleanPDFChunk g (chunks ! i) (i = 0) (i = length chunks - 1) of
                          Inr processed \<Rightarrow> processed
                        | Inl err \<Rightarrow> chunks ! i)
                [0..<length chunks]
        in joinWith [NEWLINE, NEWLINE] processedChunks)"


section \<open>StructureDetector\<close>

text \<open>
  The values \<^verbatim>\<open>JSON.parse\<close> yields. A number is given by its string form (the result of
  \<^verbatim>\<open>Number::toString\<close>), which is all the detector reads of it. An object is given by its own
  properties, each key once, as \<^verbatim>\<open>JSON.parse\<close> creates them; its prototype is
  \<^verbatim>\<open>Object.prototype\<close>.
\<close>

datatype json =
    JNull
  | JBool bool
  | JNumber jsstring
  | JString jsstring
  | JArray "json list"
  | JObject "(jsstring \<times> json) list"

text \<open>
  The result of the detector. \<open>sections\<close> is declared \<^verbatim>\<open>DocumentSection[]\<close>, with the fields
  \<^verbatim>\<open>type\<close>, \<^verbatim>\<open>title\<close> and \<^verbatim>\<open>content\<close>, but what the detector returns there is the array parsed from
  the response, whose elements may be any value.
\<close>

record StructuredDocument =
  sections :: "json list"
  plainText :: jsstring

definition DEFAULT_TITLE :: jsstring where
  "DEFAULT_TITLE = [0x627, 0x644, 0x645, 0x62D, 0x62A, 0x648, 0x649]"

definition LBRACKET :: "16 word" where "LBRACKET = 0x5B"
definition RBRACKET :: "16 word" where "RBRACKET = 0x5D"
definition COMMA :: "16 word" where "COMMA = 0x2C"

text \<open>The property names \<^verbatim>\<open>type\<close>, \<^verbatim>\<open>title\<close>, \<^verbatim>\<open>content\<close> and \<^verbatim>\<open>toString\<close>.\<close>

definition KEY_TYPE :: jsstring where
  "KEY_TYPE = [0x74, 0x79, 0x70, 0x65]"

definition KEY_TITLE :: jsstring where
  "KEY_TITLE = [0x74, 0x69, 0x74, 0x6C, 0x65]"

definition KEY_CONTENT :: jsstring where
  "KEY_CONTENT = [0x63, 0x6F, 0x6E, 0x74, 0x65, 0x6E, 0x74]"

definition KEY_TOSTRING :: jsstring where
  "KEY_TOSTRING = [0x74, 0x6F, 0x53, 0x74, 0x72, 0x69, 0x6E, 0x67]"

text \<open>
  The strings \<^verbatim>\<open>main\<close>, \<^verbatim>\<open>undefined\<close>, \<^verbatim>\<open>null\<close>, \<^verbatim>\<open>true\<close>, \<^verbatim>\<open>false\<close> and \<^verbatim>\<open>[object Object]\<close>.
\<close>

definition STR_MAIN :: jsstring where
  "STR_MAIN = [0x6D, 0x61, 0x69, 0x6E]"

definition STR_UNDEFINED :: jsstring where
  "STR_UNDEFINED = [0x75, 0x6E, 0x64, 0x65, 0x66, 0x69, 0x6E, 0x65, 0x64]"

definition STR_NULL :: jsstring where
  "STR_NULL = [0x6E, 0x75, 0x6C, 0x6C]"

definition STR_TRUE :: jsstring where
  "STR_TRUE = [0x74, 0x72, 0x75, 0x65]"

definition STR_FALSE :: jsstring where
  "STR_FALSE = [0x66, 0x61, 0x6C, 0x73, 0x65]"

definition STR_OBJECT :: jsstring where
  "STR_OBJECT = [0x5B, 0x6F, 0x62, 0x6A, 0x65, 0x63, 0x74, 0x20, 0x4F, 0x62, 0x6A, 0x65, 0x63, 0x74, 0x5D]"

text \<open>A \<^verbatim>\<open>TypeError\<close> thrown by the runtime.\<close>

definition typeError :: "error + 'a" where
  "typeError = Inl (Error [])"

text \<open>
  \<^verbatim>\<open>responseText.match(/\[[\s\S]*\]/)\<close>: the match starts at the first \<^verbatim>\<open>[\<close> that has a \<^verbatim>\<open>]\<close>
  somewhere after it, and the greedy \<^verbatim>\<open>[\s\S]*\<close> extends it to the last \<^verbatim>\<open>]\<close> of the string.
  \<open>None\<close> is \<^verbatim>\<open>null\<close>: no \<^verbatim>\<open>[\<close>, or no \<^verbatim>\<open>]\<close> after the first one.
\<close>

definition matchJsonArray :: "jsstring \<Rightarrow> jsstring option" where
  "matchJsonArray s =
     (case dropWhile (\<lambda>c. c \<noteq> LBRACKET) s of
        [] \<Rightarrow> None
      | b # rest \<Rightarrow>
          (let body = rev (dropWhile (\<lambda>c. c \<noteq> RBRACKET) (rev rest))
           in if body = [] then None else Some (b # body)))"

text \<open>
  \<^verbatim>\<open>s.title\<close> and \<^verbatim>\<open>s.content\<close> on a parsed value \<open>s\<close>: a \<^verbatim>\<open>TypeError\<close> on \<^verbatim>\<open>null\<close>, the own property
  of an object, and \<^verbatim>\<open>undefined\<close> (\<open>None\<close>) where the object has no such property and on every
  other value, since no prototype defines these two names.
\<close>

definition getProperty :: "json \<Rightarrow> jsstring \<Rightarrow> error + json option" where
  "getProperty s name =
     (case s of
        JNull \<Rightarrow> typeError
      | JObject props \<Rightarrow> Inr (map_of props name)
      | _ \<Rightarrow> Inr None)"

text \<open>The results of a sequence of evaluations, or the first error thrown among them.\<close>

fun sequenceE :: "(error + 'a) list \<Rightarrow> error + 'a list" where
  "sequenceE [] = Inr []"
| "sequenceE (r # rs) = bindE r (\<lambda>v. bindE (sequenceE rs) (\<lambda>vs. Inr (v # vs)))"

text \<open>
  The conversion to a string that a template literal applies to a parsed value. An array is
  converted by \<^verbatim>\<open>Array.prototype.join\<close>: its elements, converted, with commas between, \<^verbatim>\<open>null\<close>
  giving the empty string. An object is converted by \<^verbatim>\<open>Object.prototype.toString\<close>, unless it
  has an own property \<^verbatim>\<open>toString\<close>: that property is a parsed value, not a function, and the
  conversion throws a \<^verbatim>\<open>TypeError\<close>.
\<close>

fun toStringJson :: "json \<Rightarrow> error + jsstring" where
  "toStringJson JNull = Inr STR_NULL"
| "toStringJson (JBool b) = Inr (if b then STR_TRUE else STR_FALSE)"
| "toStringJson (JNumber s) = Inr s"
| "toStringJson (JString s) = Inr s"
| "toStringJson (JArray elements) =
     bindE (sequenceE (map (\<lambda>element. if element = JNull then Inr [] else toStringJson element) elements))
       (\<lambda>parts. Inr (joinWith [COMMA] parts))"
| "toStringJson (JObject props) =
     (if KEY_TOSTRING \<in> set (map fst props) then typeError else Inr STR_OBJECT)"

text \<open>\<^verbatim>\<open>${v}\<close> for the value of a property access, which may be \<^verbatim>\<open>undefined\<close>.\<close>

definition templateString :: "json option \<Rightarrow> error + jsstring" where
  "templateString v = (case v of None \<Rightarrow> Inr STR_UNDEFINED | Some j \<Rightarrow> toStringJson j)"

text \<open>\<^verbatim>\<open>`${s.title}\n\n${s.content}`\<close>\<close>

definition sectionText :: "json \<Rightarrow> error + jsstring" where
  "sectionText s =
     bindE (getProperty s KEY_TITLE) (\<lambda>t.
     bindE (templateString t) (\<lambda>titleText.
     bindE (getProperty s KEY_CONTENT) (\<lambda>c.
     bindE (templateString c) (\<lambda>contentText.
       Inr (titleText @ [NEWLINE, NEWLINE] @ contentText)))))"

text \<open>\<^verbatim>\<open>sections.map(s => `${s.title}\n\n${s.content}`).join("\n\n")\<close>\<close>

definition flattenSections :: "json list \<Rightarrow> error + jsstring" where
  "flattenSections secs =
     bindE (sequenceE (map sectionText secs)) (\<lambda>texts. Inr (joinWith [NEWLINE, NEWLINE] texts))"

text \<open>
  \<^verbatim>\<open>{ type: "main", title: "...", content: rawText }\<close>, the one section of the fallback.
\<close>

definition defaultResult :: "jsstring \<Rightarrow> StructuredDocument" where
  "defaultResult rawText =
     \<lparr>sections = [JObject [(KEY_TYPE, JString STR_MAIN), (KEY_TITLE, JString DEFAULT_TITLE),
                           (KEY_CONTENT, JString rawText)]],
      plainText = rawText\<rparr>"

text \<open>
  What the detector does with a non-empty trimmed response. \<open>jsonParse\<close> is \<^verbatim>\<open>JSON.parse\<close>, a
  parameter of the model: it throws (\<open>Inl\<close>) or yields a value. Without a match, and when the
  parser throws, the inner \<^verbatim>\<open>try\<close> returns the fallback. A parsed value that is not an array
  has no method \<^verbatim>\<open>map\<close>, so \<^verbatim>\<open>sections.map\<close> throws a \<^verbatim>\<open>TypeError\<close>; like an error thrown while
  the sections are flattened, it leaves the function body (\<open>Inl\<close>).
\<close>

definition sectionsFromResponse ::
  "(jsstring \<Rightarrow> error + json) \<Rightarrow> jsstring \<Rightarrow> jsstring \<Rightarrow> error + StructuredDocument" where
  "sectionsFromResponse jsonParse rawText responseText =
     (case matchJsonArray responseText of
        None \<Rightarrow> Inr (defaultResult rawText)
      | Some jsonMatch \<Rightarrow>
          (case jsonParse jsonMatch of
             Inl parseError \<Rightarrow> Inr (defaultResult rawText)
           | Inr (JArray secs) \<Rightarrow>
               bindE (flattenSections secs) (\<lambda>flat. Inr \<lparr>sections = secs, plainText = flat\<rparr>)
           | Inr _ \<Rightarrow> typeError))"

text \<open>
  \<^verbatim>\<open>detectHeadingsFromText\<close>: the outer \<^verbatim>\<open>catch\<close> turns every error of the collaborator and of
  the handling of its response into the fallback.
\<close>

definition detectHeadingsFromText ::
  "groq \<Rightarrow> (jsstring \<Rightarrow> error + json) \<Rightarrow> jsstring \<Rightarrow> StructuredDocument" where
  "detectHeadingsFromText g jsonParse rawText =
     (if \<not> apiKey g then defaultResult rawText
      else if rawText = [] \<or> length rawText < 100 then defaultResult rawText
      else
        let textToProcess = (if length rawText > 8000 then slice rawText 0 8000 else rawText)
        in case bindE (complete g (HeadingRequest textToProcess)) (\<lambda>message.
                  case trimmedContent message of
                    None \<Rightarrow> Inr (defaultResult rawText)
                  | Some responseText \<Rightarrow> sectionsFromResponse jsonParse rawText responseText) of
             Inl err \<Rightarrow> defaultResult rawText
           | Inr result \<Rightarrow> result)"

text \<open>
  The rule in the words of the specification: the first substring of the response that is a
  well-formed JSON array (one that starts with \<^verbatim>\<open>[\<close> and that \<open>jsonParse\<close> accepts as an array),
  searched by start position and then by length, parsed into the sections.
\<close>

definition substringsFrom :: "jsstring \<Rightarrow> nat \<Rightarrow> jsstring list" where
  "substringsFrom s i = map (\<lambda>n. slice s i (i + n)) [1..<length s - i + 1]"

definition wellFormedArray :: "(jsstring \<Rightarrow> error + json) \<Rightarrow> jsstring \<Rightarrow> bool" where
  "wellFormedArray jsonParse t \<longleftrightarrow>
     (case t of [] \<Rightarrow> False | c # _ \<Rightarrow> c = LBRACKET) \<and>
     (case jsonParse t of Inr (JArray _) \<Rightarrow> True | _ \<Rightarrow> False)"

definition firstWellFormedArray ::
  "(jsstring \<Rightarrow> error + json) \<Rightarrow> jsstring \<Rightarrow> jsstring option" where
  "firstWellFormedArray jsonParse s =
     find (wellFormedArray jsonParse) (concat (map (substringsFrom s) [0..<length s]))"

definition sectionsFromResponseSpec ::
  "(jsstring \<Rightarrow> error + json) \<Rightarrow> jsstring \<Rightarrow> jsstring \<Rightarrow> StructuredDocument" where
  "sectionsFromResponseSpec jsonParse rawText responseText =
     (case firstWellFormedArray jsonParse responseText of
        None \<Rightarrow> defaultResult rawText
      | Some arr \<Rightarrow>
          (case jsonParse arr of
             Inr (JArray secs) \<Rightarrow>
               (case flattenSections secs of
                  Inl e \<Rightarrow> defaultResult rawText
                | Inr flat \<Rightarrow> \<lparr>sections = secs, plainText = flat\<rparr>)
           | _ \<Rightarrow> defaultResult rawText))"

text \<open>
  The text of a section of the declared type, an object whose \<^verbatim>\<open>title\<close> and \<^verbatim>\<open>content\<close> are
  strings: the string under the given name, and whether both are there.
\<close>

definition stringField :: "json \<Rightarrow> jsstring \<Rightarrow> jsstring option" where
  "stringField s name =
     (case s of
        JObject props \<Rightarrow> (case map_of props name of Some (JString v) \<Rightarrow> Some v | _ \<Rightarrow> None)
      | _ \<Rightarrow> None)"

definition isDocumentSection :: "json \<Rightarrow> bool" where
  "isDocumentSection s \<longleftrightarrow> stringField s KEY_TITLE \<noteq> None \<and> stringField s KEY_CONTENT \<noteq> None"

definition titleAndContent :: "json \<Rightarrow> jsstring" where
  "titleAndContent s =
     the (stringField s KEY_TITLE) @ [NEWLINE, NEWLINE] @ the (stringField s KEY_CONTENT)"

section \<open>Concrete collaborators and images\<close>

text \<open>A collaborator call that rejects.\<close>

definition failing :: "error + 'a" where
  "failing = Inl (Error [])"

text \<open>
  A codec that decodes every buffer to the given image and encodes an image as its bytes; the
  other operations reject.
\<close>

definition stubSharp :: "rawImage \<Rightarrow> sharp" where
  "stubSharp img = \<lparr>sharpMetadata = (\<lambda>_. failing), sharpGrayscale = (\<lambda>_. failing),
     sharpNormalize = (\<lambda>_. failing), sharpLinear = (\<lambda>_ _ _. failing),
     sharpMedian = (\<lambda>_ _. failing), sharpSharpen = (\<lambda>_ _. failing),
     sharpResize = (\<lambda>_ _ _. failing), sharpRotate = (\<lambda>_ _. failing),
     sharpSimplified = (\<lambda>_. failing), sharpRaw = (\<lambda>_. Inr img),
     sharpFromRaw = (\<lambda>r. Inr (data r))\<rparr>"

text \<open>A 3 by 3 image of one channel, all dark.\<close>

definition inkBlock :: rawImage where
  "inkBlock = \<lparr>data = [0, 0, 0, 0, 0, 0, 0, 0, 0], width = 3, height = 3, channels = 1\<rparr>"

text \<open>A row of four pixels of two channels: the first pixel dark, the others white.\<close>

definition inkDot :: rawImage where
  "inkDot = \<lparr>data = [10, 10, 255, 255, 255, 255, 255, 255],
              width = 4, height = 1, channels = 2\<rparr>"

text \<open>
  A codec on which the ten-stage sequence rejects (no metadata), the simplified chain yields
  the buffer \<open>[1]\<close> and the grayscale-only chain the buffer \<open>[2]\<close>.
\<close>

definition fallbackSharp :: sharp where
  "fallbackSharp = \<lparr>sharpMetadata = (\<lambda>_. failing), sharpGrayscale = (\<lambda>_. Inr [2]),
     sharpNormalize = (\<lambda>_. failing), sharpLinear = (\<lambda>_ _ _. failing),
     sharpMedian = (\<lambda>_ _. failing), sharpSharpen = (\<lambda>_ _. failing),
     sharpResize = (\<lambda>_ _ _. failing), sharpRotate = (\<lambda>_ _. failing),
     sharpSimplified = (\<lambda>_. Inr [1]), sharpRaw = (\<lambda>_. failing),
     sharpFromRaw = (\<lambda>_. failing)\<rparr>"

text \<open>A completion service with a key that answers every request with the given outcome.\<close>

definition stubGroq :: "error + jsstring option \<Rightarrow> groq" where
  "stubGroq answer = \<lparr>apiKey = True, complete = (\<lambda>_. answer)\<rparr>"

text \<open>
  A recognition engine that reads nothing from the buffer \<open>[1]\<close> and the given text from any
  other buffer.
\<close>

definition stubOcr :: "jsstring \<Rightarrow> ocr" where
  "stubOcr second = \<lparr>decodeBase64 = (\<lambda>_. []),
                     recognize = (\<lambda>b. if b = [1] then Inr [] else Inr second)\<rparr>"

text \<open>
  A JSON parser cut down to the inputs of the examples: it accepts the empty array \<^verbatim>\<open>[]\<close> and
  rejects every other string. \<^verbatim>\<open>JSON.parse\<close> agrees with it on \<^verbatim>\<open>[]\<close>, \<^verbatim>\<open>[\<close> and \<^verbatim>\<open>[] ]\<close>.
\<close>

definition emptyArrayParse :: "jsstring \<Rightarrow> error + json" where
  "emptyArrayParse s = (if s = [LBRACKET, RBRACKET] then Inr (JArray []) else failing)"

text \<open>The responses \<^verbatim>\<open>[null]\<close>, \<^verbatim>\<open>[{}]\<close> and \<^verbatim>\<open>ok [{}].\<close> followed by a space.\<close>

definition nullArrayText :: jsstring where
  "nullArrayText = [LBRACKET, 0x6E, 0x75, 0x6C, 0x6C, RBRACKET]"

definition objectArrayText :: jsstring where
  "objectArrayText = [LBRACKET, 0x7B, 0x7D, RBRACKET]"

definition wrappedArrayText :: jsstring where
  "wrappedArrayText = [0x6F, 0x6B, 0x20, LBRACKET, 0x7B, 0x7D, RBRACKET, 0x2E, 0x20]"

text \<open>
  A JSON parser cut down to three inputs: it reads \<^verbatim>\<open>[]\<close>, \<^verbatim>\<open>[null]\<close> and \<^verbatim>\<open>[{}]\<close> as \<^verbatim>\<open>JSON.parse\<close>
  does, and rejects every other string.
\<close>

definition sampleParse :: "jsstring \<Rightarrow> error + json" where
  "sampleParse s =
     (if s = [LBRACKET, RBRACKET] then Inr (JArray [])
      else if s = nullArrayText then Inr (JArray [JNull])
      else if s = objectArrayText then Inr (JArray [JObject []])
      else failing)"

text \<open>A raw text of 100 letters \<open>a\<close>.\<close>

definition hundredLetters :: jsstring where
  "hundredLetters = replicate 100 0x61"

text \<open>A single white pixel; rotating it over a white background leaves it as it is.\<close>

definition whitePixel :: rawImage where
  "whitePixel = \<lparr>data = [255], width = 1, height = 1, channels = 1\<rparr>"

text \<open>
  A codec for a blank page: every buffer decodes to the white pixel and every rotation
  returns the buffer unchanged.
\<close>

definition blankSharp :: sharp where
  "blankSharp = \<lparr>sharpMetadata = (\<lambda>_. failing), sharpGrayscale = (\<lambda>_. failing),
     sharpNormalize = (\<lambda>_. failing), sharpLinear = (\<lambda>_ _ _. failing),
     sharpMedian = (\<lambda>_ _. failing), sharpSharpen = (\<lambda>_ _. failing),
     sharpResize = (\<lambda>_ _ _. failing), sharpRotate = (\<lambda>_ b. Inr b),
     sharpSimplified = (\<lambda>_. failing), sharpRaw = (\<lambda>_. Inr whitePixel),
     sharpFromRaw = (\<lambda>_. failing)\<rparr>"

text \<open>Two rows of two pixels: the first row dark, the second white.\<close>

definition stripes :: rawImage where
  "stripes = \<lparr>data = [0, 0, 255, 255], width = 2, height = 2, channels = 1\<rparr>"

text \<open>Two rows of two pixels with one dark pixel in each row.\<close>

definition smeared :: rawImage where
  "smeared = \<lparr>data = [0, 255, 255, 0], width = 2, height = 2, channels = 1\<rparr>"

text \<open>
  A codec for a page skewed by two degrees: a rotation by \<open>angle\<close> yields the buffer
  \<open>[1]\<close> when \<open>angle = 2\<close> and \<open>[0]\<close> otherwise; \<open>[1]\<close> decodes to the stripes and every other
  buffer to the smeared image.
\<close>

definition skewedSharp :: sharp where
  "skewedSharp = \<lparr>sharpMetadata = (\<lambda>_. failing), sharpGrayscale = (\<lambda>_. failing),
     sharpNormalize = (\<lambda>_. failing), sharpLinear = (\<lambda>_ _ _. failing),
     sharpMedian = (\<lambda>_ _. failing), sharpSharpen = (\<lambda>_ _. failing),
     sharpResize = (\<lambda>_ _ _. failing), sharpRotate = (\<lambda>angle _. if angle = 2 then Inr [1] else Inr [0]),
     sharpSimplified = (\<lambda>_. failing),
     sharpRaw = (\<lambda>b. if b = [1] then Inr stripes else Inr smeared),
     sharpFromRaw = (\<lambda>_. failing)\<rparr>"

text \<open>
  Three rows of three pixels with 0, 3 and 1 dark pixels, and the same rows with 0, 1 and 3.
\<close>

definition rows031 :: rawImage where
  "rows031 = \<lparr>data = [255, 255, 255, 0, 0, 0, 0, 255, 255], width = 3, height = 3, channels = 1\<rparr>"

definition rows013 :: rawImage where
  "rows013 = \<lparr>data = [255, 255, 255, 0, 255, 255, 0, 0, 0], width = 3, height = 3, channels = 1\<rparr>"

text \<open>
  A codec for which the candidates \<open>-5\<close> and \<open>-4\<close> have the same exact variance: a rotation by
  \<open>-5\<close> yields the buffer \<open>[1]\<close>, which decodes to the rows 0, 3, 1; a rotation by \<open>-4\<close> the
  buffer \<open>[2]\<close>, which decodes to the rows 0, 1, 3; every other rotation the buffer \<open>[0]\<close>,
  which decodes to the white pixel.
\<close>

definition tiedSharp :: sharp where
  "tiedSharp = \<lparr>sharpMetadata = (\<lambda>_. failing), sharpGrayscale = (\<lambda>_. failing),
     sharpNormalize = (\<lambda>_. failing), sharpLinear = (\<lambda>_ _ _. failing),
     sharpMedian = (\<lambda>_ _. failing), sharpSharpen = (\<lambda>_ _. failing),
     sharpResize = (\<lambda>_ _ _. failing),
     sharpRotate = (\<lambda>angle _. if angle = - 5 then Inr [1] else if angle = - 4 then Inr [2] else Inr [0]),
     sharpSimplified = (\<lambda>_. failing),
     sharpRaw = (\<lambda>b. if b = [1] then Inr rows031 else if b = [2] then Inr rows013 else Inr whitePixel),
     sharpFromRaw = (\<lambda>_. failing)\<rparr>"

text \<open>
  A codec that answers a resize to 1000 by 1812 pixels with the buffer \<open>[1]\<close> and a resize to
  any other size with the buffer \<open>[0]\<close>.
\<close>

definition resizeProbe :: sharp where
  "resizeProbe = \<lparr>sharpMetadata = (\<lambda>_. failing), sharpGrayscale = (\<lambda>_. failing),
     sharpNormalize = (\<lambda>_. failing), sharpLinear = (\<lambda>_ _ _. failing),
     sharpMedian = (\<lambda>_ _. failing), sharpSharpen = (\<lambda>_ _. failing),
     sharpResize = (\<lambda>newWidth newHeight _.
       if newWidth = Finite 1000 \<and> newHeight = Finite 1812 then Inr [1] else Inr [0]),
     sharpRotate = (\<lambda>_ _. failing), sharpSimplified = (\<lambda>_. failing),
     sharpRaw = (\<lambda>_. failing), sharpFromRaw = (\<lambda>_. failing)\<rparr>"

text \<open>
  A text of 6501 code units: 3500 letters \<open>a\<close>, a full stop, and 3000 more letters.
\<close>

definition longText :: jsstring where
  "longText = replicate 3500 0x61 @ PERIOD # replicate 3000 0x61"

text \<open>A row of three pixels of one channel: a pixel of intensity 100 between two of 118.\<close>

definition ridge :: rawImage where
  "ridge = \<lparr>data = [118, 100, 118], width = 3, height = 1, channels = 1\<rparr>"

section \<open>Loops that write into a buffer\<close>


lemma fold_length_preserved:
  assumes "\<And>a out. a \<in> set as \<Longrightarrow> length (step a out) = length out"
  shows "length (fold step as out) = length out"
  using assms by (induction as arbitrary: out) auto

lemma fold_writes:
  assumes len: "\<And>a out. a \<in> set as \<Longrightarrow> length (step a out) = length out"
    and eff: "\<And>a out. a \<in> set as \<Longrightarrow> j < length out \<Longrightarrow>
                step a out ! j = (if Z a then V a else out ! j)"
    and cons: "\<And>a b. a \<in> set as \<Longrightarrow> b \<in> set as \<Longrightarrow> Z a \<Longrightarrow> Z b \<Longrightarrow> V a = V b"
    and j: "j < length out"
  shows "(\<forall>a\<in>set as. Z a \<longrightarrow> fold step as out ! j = V a) \<and>
         ((\<forall>a\<in>set as. \<not> Z a) \<longrightarrow> fold step as out ! j = out ! j)"
  using assms
proof (induction as arbitrary: out)
  case Nil
  then show ?case by simp
next
  case (Cons a as)
  have l: "length (step a out) = length out" using Cons.prems(1) by simp
  have IH: "(\<forall>b\<in>set as. Z b \<longrightarrow> fold step as (step a out) ! j = V b) \<and>
         ((\<forall>b\<in>set as. \<not> Z b) \<longrightarrow> fold step as (step a out) ! j = step a out ! j)"
    by (rule Cons.IH) (use Cons.prems l in auto)
  have e: "step a out ! j = (if Z a then V a else out ! j)"
    using Cons.prems(2)[of a out] Cons.prems(4) by simp
  show ?case
  proof (intro conjI ballI impI)
    fix b assume b: "b \<in> set (a # as)" "Z b"
    show "fold step (a # as) out ! j = V b"
    proof (cases "\<exists>c\<in>set as. Z c")
      case True
      then obtain c where c: "c \<in> set as" "Z c" by blast
      then have "fold step as (step a out) ! j = V c" using IH by blast
      moreover have "V c = V b" using Cons.prems(3)[of c b] b c by auto
      ultimately show ?thesis by simp
    next
      case False
      then have "b = a" using b by auto
      moreover have "fold step as (step a out) ! j = step a out ! j" using IH False by blast
      ultimately show ?thesis using e b by simp
    qed
  next
    assume "\<forall>b\<in>set (a # as). \<not> Z b"
    then show "fold step (a # as) out ! j = out ! j" using IH e by simp
  qed
qed

lemma fold_const_writes:
  assumes len: "\<And>a out. a \<in> set as \<Longrightarrow> length (step a out) = length out"
    and eff: "\<And>a out. a \<in> set as \<Longrightarrow> j < length out \<Longrightarrow>
                step a out ! j = (if Z a then v else out ! j)"
    and j: "j < length out"
  shows "fold step as out ! j = (if \<exists>a\<in>set as. Z a then v else out ! j)"
  using fold_writes[where as=as and step=step and j=j and out=out and Z=Z and V="\<lambda>_. v", OF len eff _ j]
  by auto

lemma length_fillPixel [simp]: "length (fillPixel chans idx v out) = length out"
  unfolding fillPixel_def by (rule fold_length_preserved) simp

lemma nth_fillPixel:
  assumes "j < length out"
  shows "fillPixel chans idx v out ! j = (if idx \<le> j \<and> j < idx + chans then v else out ! j)"
proof -
  have "fillPixel chans idx v out ! j = (if \<exists>c\<in>set [0..<chans]. j = idx + c then v else out ! j)"
    unfolding fillPixel_def
    by (rule fold_const_writes) (use assms in \<open>auto simp: nth_list_update\<close>)
  moreover have "(\<exists>c\<in>set [0..<chans]. j = idx + c) \<longleftrightarrow> idx \<le> j \<and> j < idx + chans"
    by (auto intro: bexI[of _ "j - idx"])
  ultimately show ?thesis by simp
qed


lemma pixel_slot_unique:
  fixes c k x x' y y' w :: nat
  assumes "0 < c" "k < c" "x < w" "x' < w"
  shows "((y' * w + x') * c \<le> (y * w + x) * c + k \<and> (y * w + x) * c + k < (y' * w + x') * c + c)
         \<longleftrightarrow> (x' = x \<and> y' = y)"
proof
  assume h: "(y' * w + x') * c \<le> (y * w + x) * c + k \<and> (y * w + x) * c + k < (y' * w + x') * c + c"
  define m where "m = y * w + x"
  define m' where "m' = y' * w + x'"
  have "m' * c < (m + 1) * c" using h assms(2) unfolding m_def m'_def by simp
  then have "m' < m + 1" by (simp only: mult_less_cancel2)
  then have 1: "m' \<le> m" by simp
  have "m * c < (m' + 1) * c" using h unfolding m_def m'_def by simp
  then have "m < m' + 1" by (simp only: mult_less_cancel2)
  then have 2: "m \<le> m'" by simp
  have eq: "y * w + x = y' * w + x'" using 1 2 unfolding m_def m'_def by simp
  have "(y * w + x) mod w = (y' * w + x') mod w" using eq by simp
  then have x: "x = x'" using assms(3,4) by simp
  have "(y * w + x) div w = (y' * w + x') div w" using eq by simp
  then have "y = y'" using assms(3,4) by simp
  with x show "x' = x \<and> y' = y" by simp
next
  assume "x' = x \<and> y' = y"
  then show "(y' * w + x') * c \<le> (y * w + x) * c + k \<and> (y * w + x) * c + k < (y' * w + x') * c + c"
    using assms(2) by simp
qed

lemma pixelIndex_in_range:
  assumes "wellFormed img" "x < width img" "y < height img" "k < channels img"
  shows "pixelIndex img x y + k < length (data img)"
proof -
  have "y * width img + x < width img * height img"
  proof -
    have "y * width img + x < y * width img + width img" using assms(2) by simp
    also have "\<dots> = (y + 1) * width img" by simp
    also have "\<dots> \<le> height img * width img" using assms(3) by (intro mult_le_mono1) simp
    finally show ?thesis by (simp add: mult.commute)
  qed
  then have "y * width img + x + 1 \<le> width img * height img" by simp
  then have "(y * width img + x + 1) * channels img \<le> width img * height img * channels img"
    by (rule mult_le_mono1)
  moreover have "pixelIndex img x y + k < (y * width img + x + 1) * channels img"
    using assms(4) unfolding pixelIndex_def by simp
  ultimately show ?thesis using assms(1) unfolding wellFormed_def by simp
qed

text \<open>A neighbour that keeps \<open>allBlack\<close>: in bounds and not at least 128.\<close>

lemma erosionProbe_iff:
  "erosionProbe img x y dy dx allBlack \<longleftrightarrow>
     allBlack \<and> inBounds img (int x + dx) (int y + dy) \<and>
     \<not> atLeast128 (readByte (data img) (pixelIndex img (nat (int x + dx)) (nat (int y + dy))))"
  unfolding erosionProbe_def by (simp add: Let_def)

lemma erosionScanRow_iff:
  "erosionScanRow img half x y dy dx allBlack \<longleftrightarrow>
     allBlack \<and> (\<forall>d\<in>{dx..half}. erosionProbe img x y dy d True)"
proof (induction img half x y dy dx allBlack rule: erosionScanRow.induct)
  case (1 img half x y dy dx allBlack)
  show ?case
  proof (cases "dx \<le> half \<and> allBlack")
    case True
    have split: "{dx..half} = insert dx {dx + 1..half}" using True by auto
    have "erosionScanRow img half x y dy dx allBlack
          = erosionScanRow img half x y dy (dx + 1) (erosionProbe img x y dy dx allBlack)"
      using True by (subst erosionScanRow.simps) simp
    also have "\<dots> \<longleftrightarrow> erosionProbe img x y dy dx allBlack \<and>
                 (\<forall>d\<in>{dx + 1..half}. erosionProbe img x y dy d True)"
      using "1.IH" True by simp
    finally show ?thesis using True by (simp add: split erosionProbe_iff)
  next
    case False
    then show ?thesis by (subst erosionScanRow.simps) auto
  qed
qed

lemma erosionScan_iff:
  "erosionScan img half x y dy allBlack \<longleftrightarrow>
     allBlack \<and> (\<forall>e\<in>{dy..half}. \<forall>d\<in>{- half..half}. erosionProbe img x y e d True)"
proof (induction img half x y dy allBlack rule: erosionScan.induct)
  case (1 img half x y dy allBlack)
  show ?case
  proof (cases "dy \<le> half \<and> allBlack")
    case True
    have split: "{dy..half} = insert dy {dy + 1..half}" using True by auto
    have "erosionScan img half x y dy allBlack
          = erosionScan img half x y (dy + 1) (erosionScanRow img half x y dy (- half) allBlack)"
      using True by (subst erosionScan.simps) simp
    also have "\<dots> \<longleftrightarrow> erosionScanRow img half x y dy (- half) allBlack \<and>
                 (\<forall>e\<in>{dy + 1..half}. \<forall>d\<in>{- half..half}. erosionProbe img x y e d True)"
      using "1.IH" True by simp
    finally show ?thesis using True by (simp add: split erosionScanRow_iff)
  next
    case False
    then show ?thesis by (subst erosionScan.simps) auto
  qed
qed


lemma fold2_length_preserved:
  assumes "\<And>a b out. length (step a b out) = length out"
  shows "length (fold (\<lambda>a out. fold (\<lambda>b out'. step a b out') bs out) as out) = length out"
  by (intro fold_length_preserved) (simp add: assms)

lemma fold2_const_writes:
  assumes len: "\<And>a b out. length (step a b out) = length out"
    and eff: "\<And>a b out. j < length out \<Longrightarrow> step a b out ! j = (if Z a b then v else out ! j)"
    and j: "j < length out"
  shows "fold (\<lambda>a out. fold (\<lambda>b out'. step a b out') bs out) as out ! j
         = (if \<exists>a\<in>set as. \<exists>b\<in>set bs. Z a b then v else out ! j)"
proof (rule fold_const_writes[where Z = "\<lambda>a. \<exists>b\<in>set bs. Z a b"])
  fix a and out :: "'c list"
  show "length (fold (\<lambda>b out'. step a b out') bs out) = length out"
    by (rule fold_length_preserved) (simp add: len)
  assume "j < length out"
  then show "fold (\<lambda>b out'. step a b out') bs out ! j
             = (if \<exists>b\<in>set bs. Z a b then v else out ! j)"
    by (intro fold_const_writes) (simp_all add: len eff)
qed (rule j)

lemma length_erosionGather [simp]: "length (erosionGather img half x y out) = length out"
  unfolding erosionGather_def by simp

lemma nth_erosionGather:
  assumes "j < length out"
  shows "erosionGather img half x y out ! j =
           (if erosionScan img half x y (- half) True \<and>
               pixelIndex img x y \<le> j \<and> j < pixelIndex img x y + channels img
            then 0 else out ! j)"
  unfolding erosionGather_def using assms by (simp add: nth_fillPixel)

lemma slot_of_pixel:
  assumes "wellFormed img" "x < width img" "x' < width img" "k < channels img"
  shows "pixelIndex img x' y' \<le> pixelIndex img x y + k \<and>
         pixelIndex img x y + k < pixelIndex img x' y' + channels img \<longleftrightarrow> x' = x \<and> y' = y"
  unfolding pixelIndex_def
  by (rule pixel_slot_unique) (use assms in \<open>auto simp: wellFormed_def\<close>)

lemma erosionPixels_nth:
  assumes wf: "wellFormed img" and x: "x < width img" and y: "y < height img"
    and k: "k < channels img"
  shows "data (erosionPixels img kernelSize) ! (pixelIndex img x y + k) =
           (if erosionScan img (int (kernelSize div 2)) x y (- int (kernelSize div 2)) True
            then 0 else 255)"
proof -
  define half where "half = int (kernelSize div 2)"
  define j where "j = pixelIndex img x y + k"
  define init where "init = replicate (length (data img)) (255 :: byte)"
  have j: "j < length init"
    unfolding j_def init_def using pixelIndex_in_range[OF wf x y k] by simp
  have "fold (\<lambda>y out. fold (\<lambda>x out'. erosionGather img half x y out') [0..<width img] out)
          [0..<height img] init ! j
        = (if \<exists>y'\<in>set [0..<height img]. \<exists>x'\<in>set [0..<width img].
                erosionScan img half x' y' (- half) True \<and>
                pixelIndex img x' y' \<le> j \<and> j < pixelIndex img x' y' + channels img
           then 0 else init ! j)"
    by (rule fold2_const_writes) (simp_all add: nth_erosionGather j)
  moreover have "(\<exists>y'\<in>set [0..<height img]. \<exists>x'\<in>set [0..<width img].
                erosionScan img half x' y' (- half) True \<and>
                pixelIndex img x' y' \<le> j \<and> j < pixelIndex img x' y' + channels img)
             \<longleftrightarrow> erosionScan img half x y (- half) True"
    unfolding j_def using slot_of_pixel[OF wf x _ k] x y by auto
  moreover have "init ! j = 255" using j unfolding init_def by simp
  ultimately show ?thesis
    unfolding erosionPixels_def Let_def half_def[symmetric] init_def[symmetric] j_def[symmetric]
    by simp
qed

lemma atLeast128_read:
  assumes "wellFormed img" "x < width img" "y < height img"
  shows "atLeast128 (readByte (data img) (pixelIndex img x y)) \<longleftrightarrow> \<not> data img ! pixelIndex img x y < 128"
proof -
  have "0 < channels img" using assms(1) by (simp add: wellFormed_def)
  from pixelIndex_in_range[OF assms this]
  show ?thesis by (simp add: atLeast128_def readByte_def not_less)
qed

lemma lessThan128_read:
  assumes "wellFormed img" "x < width img" "y < height img"
  shows "lessThan128 (readByte (data img) (pixelIndex img x y)) \<longleftrightarrow> data img ! pixelIndex img x y < 128"
proof -
  have "0 < channels img" using assms(1) by (simp add: wellFormed_def)
  from pixelIndex_in_range[OF assms this]
  show ?thesis by (simp add: lessThan128_def readByte_def)
qed

lemma inBounds_nat:
  "inBounds img nx ny \<Longrightarrow> nat nx < width img \<and> nat ny < height img"
  unfolding inBounds_def by auto

lemma bright_neighbour_iff:
  assumes wf: "wellFormed img"
  shows "inBounds img nx ny \<and> \<not> atLeast128 (readByte (data img) (pixelIndex img (nat nx) (nat ny)))
         \<longleftrightarrow> inBounds img nx ny \<and> data img ! pixelIndex img (nat nx) (nat ny) < 128"
proof (cases "inBounds img nx ny")
  case True
  then have "nat nx < width img" "nat ny < height img" using inBounds_nat by blast+
  from atLeast128_read[OF wf this] True show ?thesis by simp
next
  case False
  then show ?thesis by simp
qed

lemma erosion_allBlack_iff:
  assumes wf: "wellFormed img"
  shows "erosionScan img half x y (- half) True \<longleftrightarrow>
           (\<forall>dy\<in>{- half..half}. \<forall>dx\<in>{- half..half}.
              inBounds img (int x + dx) (int y + dy) \<and>
              data img ! pixelIndex img (nat (int x + dx)) (nat (int y + dy)) < 128)"
  unfolding erosionScan_iff erosionProbe_iff
  by (simp add: bright_neighbour_iff[OF wf])


lemma length_dilationScatter [simp]: "length (dilationScatter img half x y out) = length out"
  unfolding dilationScatter_def
  by (simp add: fold2_length_preserved Let_def)

lemma nth_dilationScatter:
  assumes j: "j < length out"
  shows "dilationScatter img half x y out ! j =
           (if lessThan128 (readByte (data img) (pixelIndex img x y)) \<and>
               (\<exists>dy\<in>set [- half..half]. \<exists>dx\<in>set [- half..half].
                  inBounds img (int x + dx) (int y + dy) \<and>
                  pixelIndex img (nat (int x + dx)) (nat (int y + dy)) \<le> j \<and>
                  j < pixelIndex img (nat (int x + dx)) (nat (int y + dy)) + channels img)
            then 0 else out ! j)"
proof (cases "lessThan128 (readByte (data img) (pixelIndex img x y))")
  case True
  have "fold (\<lambda>dy out1. fold (\<lambda>dx out2.
            let ny = int y + dy; nx = int x + dx in
            if inBounds img nx ny
            then fillPixel (channels img) (pixelIndex img (nat nx) (nat ny)) 0 out2
            else out2) [- half .. half] out1) [- half .. half] out ! j
        = (if \<exists>dy\<in>set [- half..half]. \<exists>dx\<in>set [- half..half].
                  inBounds img (int x + dx) (int y + dy) \<and>
                  pixelIndex img (nat (int x + dx)) (nat (int y + dy)) \<le> j \<and>
                  j < pixelIndex img (nat (int x + dx)) (nat (int y + dy)) + channels img
           then 0 else out ! j)"
    by (rule fold2_const_writes) (simp_all add: Let_def nth_fillPixel j)
  then show ?thesis using True unfolding dilationScatter_def by simp
next
  case False
  then show ?thesis unfolding dilationScatter_def by simp
qed

lemma dilationPixels_nth:
  assumes wf: "wellFormed img" and x: "x < width img" and y: "y < height img"
    and k: "k < channels img"
  shows "data (dilationPixels img kernelSize) ! (pixelIndex img x y + k) =
           (if \<exists>sy\<in>set [0..<height img]. \<exists>sx\<in>set [0..<width img].
                 data img ! pixelIndex img sx sy < 128 \<and>
                 (\<exists>dy\<in>{- int (kernelSize div 2)..int (kernelSize div 2)}.
                  \<exists>dx\<in>{- int (kernelSize div 2)..int (kernelSize div 2)}.
                    int sx + dx = int x \<and> int sy + dy = int y)
            then 0 else 255)"
proof -
  define half where "half = int (kernelSize div 2)"
  define j where "j = pixelIndex img x y + k"
  define init where "init = replicate (length (data img)) (255 :: byte)"
  have j: "j < length init"
    unfolding j_def init_def using pixelIndex_in_range[OF wf x y k] by simp
  have hit: "inBounds img nx ny \<and> pixelIndex img (nat nx) (nat ny) \<le> j \<and>
             j < pixelIndex img (nat nx) (nat ny) + channels img
             \<longleftrightarrow> nx = int x \<and> ny = int y" for nx ny
  proof (cases "inBounds img nx ny")
    case True
    then have "nat nx < width img" using inBounds_nat by blast
    from slot_of_pixel[OF wf x this k, of "nat ny" y] True
    show ?thesis unfolding j_def inBounds_def by auto
  next
    case False
    then show ?thesis using x y unfolding inBounds_def by auto
  qed
  have "fold (\<lambda>y out. fold (\<lambda>x out'. dilationScatter img half x y out') [0..<width img] out)
          [0..<height img] init ! j
        = (if \<exists>sy\<in>set [0..<height img]. \<exists>sx\<in>set [0..<width img].
               lessThan128 (readByte (data img) (pixelIndex img sx sy)) \<and>
               (\<exists>dy\<in>set [- half..half]. \<exists>dx\<in>set [- half..half].
                  inBounds img (int sx + dx) (int sy + dy) \<and>
                  pixelIndex img (nat (int sx + dx)) (nat (int sy + dy)) \<le> j \<and>
                  j < pixelIndex img (nat (int sx + dx)) (nat (int sy + dy)) + channels img)
           then 0 else init ! j)"
    by (rule fold2_const_writes) (simp_all add: nth_dilationScatter j)
  moreover have "(\<exists>sy\<in>set [0..<height img]. \<exists>sx\<in>set [0..<width img].
               lessThan128 (readByte (data img) (pixelIndex img sx sy)) \<and>
               (\<exists>dy\<in>set [- half..half]. \<exists>dx\<in>set [- half..half].
                  inBounds img (int sx + dx) (int sy + dy) \<and>
                  pixelIndex img (nat (int sx + dx)) (nat (int sy + dy)) \<le> j \<and>
                  j < pixelIndex img (nat (int sx + dx)) (nat (int sy + dy)) + channels img))
        \<longleftrightarrow> (\<exists>sy\<in>set [0..<height img]. \<exists>sx\<in>set [0..<width img].
                 data img ! pixelIndex img sx sy < 128 \<and>
                 (\<exists>dy\<in>{- half..half}. \<exists>dx\<in>{- half..half}.
                    int sx + dx = int x \<and> int sy + dy = int y))"
    using lessThan128_read[OF wf] by (simp add: hit)
  moreover have "init ! j = 255" using j unfolding init_def by simp
  ultimately show ?thesis
    unfolding dilationPixels_def Let_def half_def[symmetric] init_def[symmetric] j_def[symmetric]
    by simp
qed

lemma dilation_gather_iff:
  assumes wf: "wellFormed img" and x: "x < width img" and y: "y < height img"
  shows "(\<exists>sy\<in>set [0..<height img]. \<exists>sx\<in>set [0..<width img].
                 data img ! pixelIndex img sx sy < 128 \<and>
                 (\<exists>dy\<in>{- half..half}. \<exists>dx\<in>{- half..half}.
                    int sx + dx = int x \<and> int sy + dy = int y))
         \<longleftrightarrow> (\<exists>dy\<in>{- half..half}. \<exists>dx\<in>{- half..half}.
                inBounds img (int x + dx) (int y + dy) \<and>
                data img ! pixelIndex img (nat (int x + dx)) (nat (int y + dy)) < 128)"
    (is "?L \<longleftrightarrow> ?R")
proof
  assume ?L
  then obtain sy sx dy dx where h: "sy < height img" "sx < width img"
      "data img ! pixelIndex img sx sy < 128" "dy \<in> {- half..half}" "dx \<in> {- half..half}"
      "int sx + dx = int x" "int sy + dy = int y"
    by auto
  have "- dy \<in> {- half..half}" "- dx \<in> {- half..half}" using h(4,5) by auto
  moreover have "int x + (- dx) = int sx" "int y + (- dy) = int sy" using h(6,7) by auto
  moreover have "inBounds img (int sx) (int sy)" using h(1,2) unfolding inBounds_def by simp
  ultimately show ?R using h(3) by (intro bexI[of _ "- dy"] bexI[of _ "- dx"]) auto
next
  assume ?R
  then obtain dy dx where h: "dy \<in> {- half..half}" "dx \<in> {- half..half}"
      "inBounds img (int x + dx) (int y + dy)"
      "data img ! pixelIndex img (nat (int x + dx)) (nat (int y + dy)) < 128"
    by auto
  define sx where "sx = nat (int x + dx)"
  define sy where "sy = nat (int y + dy)"
  have b: "sx < width img" "sy < height img" "int sx = int x + dx" "int sy = int y + dy"
    using h(3) unfolding sx_def sy_def inBounds_def by auto
  have "- dy \<in> {- half..half}" "- dx \<in> {- half..half}" using h(1,2) by auto
  moreover have "int sx + (- dx) = int x" "int sy + (- dy) = int y" using b by auto
  ultimately have "\<exists>dy\<in>{- half..half}. \<exists>dx\<in>{- half..half}.
                    int sx + dx = int x \<and> int sy + dy = int y" by blast
  then show ?L using b(1,2) h(4) unfolding sx_def[symmetric] sy_def[symmetric]
    by (intro bexI[of _ sy] bexI[of _ sx]) auto
qed

section \<open>MorphologyEngine: what the loops compute\<close>

lemma erosionPixels_value:
  assumes wf: "wellFormed img" and x: "x < width img" and y: "y < height img"
    and c: "c < channels img"
  shows "data (erosionPixels img kernelSize) ! (pixelIndex img x y + c) =
           (if \<forall>dy\<in>{- int (kernelSize div 2)..int (kernelSize div 2)}.
                 \<forall>dx\<in>{- int (kernelSize div 2)..int (kernelSize div 2)}.
                   darkAt img (int x + dx) (int y + dy)
            then 0 else 255)"
  unfolding darkAt_def
  using erosionPixels_nth[OF wf x y c] erosion_allBlack_iff[OF wf] by simp

lemma dilationPixels_value:
  assumes wf: "wellFormed img" and x: "x < width img" and y: "y < height img"
    and c: "c < channels img"
  shows "data (dilationPixels img kernelSize) ! (pixelIndex img x y + c) =
           (if \<exists>dy\<in>{- int (kernelSize div 2)..int (kernelSize div 2)}.
                 \<exists>dx\<in>{- int (kernelSize div 2)..int (kernelSize div 2)}.
                   darkAt img (int x + dx) (int y + dy)
            then 0 else 255)"
  unfolding darkAt_def
  using dilationPixels_nth[OF wf x y c] dilation_gather_iff[OF wf x y] by simp

lemma darkAt_self:
  assumes "x < width img" "y < height img"
  shows "darkAt img (int x + 0) (int y + 0) \<longleftrightarrow> data img ! pixelIndex img x y < 128"
  using assms unfolding darkAt_def inBounds_def by simp

lemma erosion_border_bright:
  assumes wf: "wellFormed img" and x: "x < width img" and y: "y < height img"
    and c: "c < channels img"
    and b: "int x < int (kernelSize div 2) \<or> int (width img) \<le> int x + int (kernelSize div 2) \<or>
            int y < int (kernelSize div 2) \<or> int (height img) \<le> int y + int (kernelSize div 2)"
  shows "data (erosionPixels img kernelSize) ! (pixelIndex img x y + c) = 255"
proof -
  define half where "half = int (kernelSize div 2)"
  have h0: "0 \<le> half" unfolding half_def by simp
  have "\<exists>dy\<in>{- half..half}. \<exists>dx\<in>{- half..half}. \<not> darkAt img (int x + dx) (int y + dy)"
    using b unfolding half_def[symmetric]
  proof (elim disjE)
    assume "int x < half"
    then have "\<not> darkAt img (int x + (- half)) (int y + 0)"
      unfolding darkAt_def inBounds_def by simp
    then show ?thesis using h0 by (intro bexI[of _ 0] bexI[of _ "- half"]) auto
  next
    assume "int (width img) \<le> int x + half"
    then have "\<not> darkAt img (int x + half) (int y + 0)"
      unfolding darkAt_def inBounds_def by simp
    then show ?thesis using h0 by (intro bexI[of _ 0] bexI[of _ "half"]) auto
  next
    assume "int y < half"
    then have "\<not> darkAt img (int x + 0) (int y + (- half))"
      unfolding darkAt_def inBounds_def by simp
    then show ?thesis using h0 by (intro bexI[of _ 0] bexI[of _ "- half"]) auto
  next
    assume "int (height img) \<le> int y + half"
    then have "\<not> darkAt img (int x + 0) (int y + half)"
      unfolding darkAt_def inBounds_def by simp
    then show ?thesis using h0 by (intro bexI[of _ 0] bexI[of _ "half"]) auto
  qed
  then show ?thesis
    using erosionPixels_value[OF wf x y c, of kernelSize] unfolding half_def by auto
qed

lemma applyErosion_decoded:
  "sharpRaw sh imageBuffer = Inr img \<Longrightarrow>
   applyErosion sh imageBuffer kernelSize = sharpFromRaw sh (erosionPixels img kernelSize)"
  unfolding applyErosion_def bindE_def by simp

lemma applyDilation_decoded:
  "sharpRaw sh imageBuffer = Inr img \<Longrightarrow>
   applyDilation sh imageBuffer kernelSize = sharpFromRaw sh (dilationPixels img kernelSize)"
  unfolding applyDilation_def bindE_def by simp

text \<open>
  C6. For a decoded, well-formed image and any kernel size, with \<open>half = kernelSize div 2\<close>,
  \<open>applyErosion\<close> hands to the encoder an image in which every channel of pixel \<open>(x, y)\<close> is 0
  if every position of the square neighbourhood of radius \<open>half\<close> lies within the image and is
  dark (first channel below 128) in the source, and 255 otherwise. Positions outside the image
  count as not dark, so every pixel closer than \<open>half\<close> to a border is 255 in the output.
\<close>

theorem applyErosion_dark_iff_whole_neighbourhood_dark:
  assumes dec: "sharpRaw sh imageBuffer = Inr img" and wf: "wellFormed img"
    and x: "x < width img" and y: "y < height img" and c: "c < channels img"
  shows "applyErosion sh imageBuffer kernelSize = sharpFromRaw sh (erosionPixels img kernelSize)
       \<and> data (erosionPixels img kernelSize) ! (pixelIndex img x y + c) =
           (if \<forall>dy\<in>{- int (kernelSize div 2)..int (kernelSize div 2)}.
                 \<forall>dx\<in>{- int (kernelSize div 2)..int (kernelSize div 2)}.
                   darkAt img (int x + dx) (int y + dy)
            then 0 else 255)
       \<and> ((int x < int (kernelSize div 2) \<or> int (width img) \<le> int x + int (kernelSize div 2) \<or>
            int y < int (kernelSize div 2) \<or> int (height img) \<le> int y + int (kernelSize div 2))
           \<longrightarrow> data (erosionPixels img kernelSize) ! (pixelIndex img x y + c) = 255)"
  using applyErosion_decoded[OF dec] erosionPixels_value[OF wf x y c]
    erosion_border_bright[OF wf x y c]
  by blast

theorem applyErosion_dark_iff_whole_neighbourhood_dark_witness:
  "sharpRaw (stubSharp inkBlock) [] = Inr inkBlock \<and> wellFormed inkBlock
   \<and> applyErosion (stubSharp inkBlock) [] 3 = Inr (data (erosionPixels inkBlock 3))
   \<and> data (erosionPixels inkBlock 3) ! 4 = 0
   \<and> data (erosionPixels inkBlock 3) ! 3 = 255"
proof -
  have dec: "sharpRaw (stubSharp inkBlock) [] = Inr inkBlock" by (simp add: stubSharp_def)
  have wf: "wellFormed inkBlock" by (simp add: wellFormed_def inkBlock_def)
  have b: "(1::nat) < width inkBlock" "(1::nat) < height inkBlock" "(0::nat) < width inkBlock"
    "(0::nat) < channels inkBlock"
    by (simp_all add: inkBlock_def)
  have ev: "\<forall>dy\<in>{- int (3 div 2)..int (3 div 2)}. \<forall>dx\<in>{- int (3 div 2)..int (3 div 2)}.
              darkAt inkBlock (int 1 + dx) (int 1 + dy)"
    by (simp add: set_upto[symmetric] upto_rec1 darkAt_def inBounds_def inkBlock_def pixelIndex_def)
  have i4: "pixelIndex inkBlock 1 1 + 0 = 4" "pixelIndex inkBlock 0 1 + 0 = 3"
    by (simp_all add: pixelIndex_def inkBlock_def)
  note centre = applyErosion_dark_iff_whole_neighbourhood_dark[OF dec wf b(1) b(2) b(4), of 3]
  note edge = applyErosion_dark_iff_whole_neighbourhood_dark[OF dec wf b(3) b(2) b(4), of 3]
  have 1: "applyErosion (stubSharp inkBlock) [] 3 = Inr (data (erosionPixels inkBlock 3))"
    using centre by (simp add: stubSharp_def)
  have 2: "data (erosionPixels inkBlock 3) ! 4 = 0"
    using centre[THEN conjunct2, THEN conjunct1] ev unfolding i4 by simp
  have 3: "data (erosionPixels inkBlock 3) ! 3 = 255"
    using edge[THEN conjunct2, THEN conjunct2] unfolding i4 by simp
  show ?thesis using dec wf 1 2 3 by simp
qed

text \<open>
  C7. For a decoded, well-formed image and any kernel size, with \<open>half = kernelSize div 2\<close>,
  the scatter loops of \<open>applyDilation\<close> compute the gather definition: every channel of output
  pixel \<open>(x, y)\<close> is 0 if some position of the square neighbourhood of radius \<open>half\<close>, clipped at
  the image borders, is dark (first channel below 128) in the source, and 255 otherwise.
\<close>

theorem applyDilation_scatter_computes_gather:
  assumes dec: "sharpRaw sh imageBuffer = Inr img" and wf: "wellFormed img"
    and x: "x < width img" and y: "y < height img" and c: "c < channels img"
  shows "applyDilation sh imageBuffer kernelSize = sharpFromRaw sh (dilationPixels img kernelSize)
       \<and> data (dilationPixels img kernelSize) ! (pixelIndex img x y + c) =
           (if \<exists>dy\<in>{- int (kernelSize div 2)..int (kernelSize div 2)}.
                 \<exists>dx\<in>{- int (kernelSize div 2)..int (kernelSize div 2)}.
                   darkAt img (int x + dx) (int y + dy)
            then 0 else 255)"
  using applyDilation_decoded[OF dec] dilationPixels_value[OF wf x y c]
  by blast

theorem applyDilation_scatter_computes_gather_witness:
  "sharpRaw (stubSharp inkDot) [] = Inr inkDot \<and> wellFormed inkDot
   \<and> applyDilation (stubSharp inkDot) [] 3 = Inr (data (dilationPixels inkDot 3))
   \<and> data (dilationPixels inkDot 3) ! 3 = 0
   \<and> data (dilationPixels inkDot 3) ! 7 = 255"
proof -
  have dec: "sharpRaw (stubSharp inkDot) [] = Inr inkDot" by (simp add: stubSharp_def)
  have wf: "wellFormed inkDot" by (simp add: wellFormed_def inkDot_def)
  have b: "(1::nat) < width inkDot" "(0::nat) < height inkDot" "(3::nat) < width inkDot"
    "(1::nat) < channels inkDot"
    by (simp_all add: inkDot_def)
  have ev: "\<exists>dy\<in>{- int (3 div 2)..int (3 div 2)}. \<exists>dx\<in>{- int (3 div 2)..int (3 div 2)}.
              darkAt inkDot (int 1 + dx) (int 0 + dy)"
    by (simp add: set_upto[symmetric] upto_rec1 darkAt_def inBounds_def inkDot_def pixelIndex_def)
  have ev2: "\<not> (\<exists>dy\<in>{- int (3 div 2)..int (3 div 2)}. \<exists>dx\<in>{- int (3 div 2)..int (3 div 2)}.
              darkAt inkDot (int 3 + dx) (int 0 + dy))"
    by (simp add: set_upto[symmetric] upto_rec1 darkAt_def inBounds_def inkDot_def pixelIndex_def)
  have i: "pixelIndex inkDot 1 0 + 1 = 3" "pixelIndex inkDot 3 0 + 1 = 7"
    by (simp_all add: pixelIndex_def inkDot_def)
  note near = applyDilation_scatter_computes_gather[OF dec wf b(1) b(2) b(4), of 3]
  note far = applyDilation_scatter_computes_gather[OF dec wf b(3) b(2) b(4), of 3]
  have 1: "applyDilation (stubSharp inkDot) [] 3 = Inr (data (dilationPixels inkDot 3))"
    using near by (simp add: stubSharp_def)
  have 2: "data (dilationPixels inkDot 3) ! 3 = 0"
    using near[THEN conjunct2] ev unfolding i by simp
  have 3: "data (dilationPixels inkDot 3) ! 7 = 255"
    using far[THEN conjunct2] ev2 unfolding i by simp
  show ?thesis using dec wf 1 2 3 by simp
qed

text \<open>
  C10. Dilation is extensive and erosion anti-extensive on dark pixels: for an input buffer
  that decodes to a well-formed image and any kernel size, \<open>applyDilation\<close> hands to the encoder
  the output of its pixel loops, in which every channel of a pixel that is dark (first channel
  below 128) in the input is 0, and \<open>applyErosion\<close> hands to the encoder the output of its pixel
  loops, in which a pixel that is 0 in a channel was dark in the input.
\<close>

theorem dilation_extensive_erosion_antiextensive:
  assumes dec: "sharpRaw sh imageBuffer = Inr img" and wf: "wellFormed img"
    and x: "x < width img" and y: "y < height img" and c: "c < channels img"
  shows "applyDilation sh imageBuffer kernelSize = sharpFromRaw sh (dilationPixels img kernelSize)
       \<and> applyErosion sh imageBuffer kernelSize = sharpFromRaw sh (erosionPixels img kernelSize)
       \<and> (data img ! pixelIndex img x y < 128 \<longrightarrow>
            data (dilationPixels img kernelSize) ! (pixelIndex img x y + c) = 0)
       \<and> (data (erosionPixels img kernelSize) ! (pixelIndex img x y + c) = 0 \<longrightarrow>
            data img ! pixelIndex img x y < 128)"
proof -
  define half where "half = int (kernelSize div 2)"
  have z: "(0::int) \<in> {- half..half}" unfolding half_def by simp
  have self: "darkAt img (int x + 0) (int y + 0) \<longleftrightarrow> data img ! pixelIndex img x y < 128"
    by (rule darkAt_self[OF x y])
  have d: "data (dilationPixels img kernelSize) ! (pixelIndex img x y + c) = 0"
    if "data img ! pixelIndex img x y < 128"
  proof -
    have "\<exists>dy\<in>{- half..half}. \<exists>dx\<in>{- half..half}. darkAt img (int x + dx) (int y + dy)"
      using that self z by blast
    then show ?thesis using dilationPixels_value[OF wf x y c, of kernelSize] unfolding half_def by simp
  qed
  have e: "data img ! pixelIndex img x y < 128"
    if "data (erosionPixels img kernelSize) ! (pixelIndex img x y + c) = 0"
  proof -
    have "\<forall>dy\<in>{- half..half}. \<forall>dx\<in>{- half..half}. darkAt img (int x + dx) (int y + dy)"
      using that erosionPixels_value[OF wf x y c, of kernelSize] unfolding half_def
      by (simp split: if_splits)
    then show ?thesis using self z by blast
  qed
  show ?thesis using applyDilation_decoded[OF dec] applyErosion_decoded[OF dec] d e by blast
qed

theorem dilation_extensive_erosion_antiextensive_witness:
  "sharpRaw (stubSharp inkBlock) [] = Inr inkBlock \<and> wellFormed inkBlock
   \<and> applyDilation (stubSharp inkBlock) [] 3 = Inr (data (dilationPixels inkBlock 3))
   \<and> applyErosion (stubSharp inkBlock) [] 3 = Inr (data (erosionPixels inkBlock 3))
   \<and> data inkBlock ! pixelIndex inkBlock 0 0 < 128
   \<and> data (dilationPixels inkBlock 3) ! 0 = 0
   \<and> data (erosionPixels inkBlock 3) ! 4 = 0 \<and> data inkBlock ! 4 < 128"
proof -
  have dec: "sharpRaw (stubSharp inkBlock) [] = Inr inkBlock" by (simp add: stubSharp_def)
  have wf: "wellFormed inkBlock" by (simp add: wellFormed_def inkBlock_def)
  have b: "(0::nat) < width inkBlock" "(0::nat) < height inkBlock" "(0::nat) < channels inkBlock"
    "(1::nat) < width inkBlock" "(1::nat) < height inkBlock"
    by (simp_all add: inkBlock_def)
  have i: "pixelIndex inkBlock 0 0 = 0" "pixelIndex inkBlock 1 1 = 4"
    by (simp_all add: pixelIndex_def inkBlock_def)
  have dk: "data inkBlock ! 0 < 128" by (simp add: inkBlock_def)
  have er: "data (erosionPixels inkBlock 3) ! 4 = 0" by code_simp
  note corner = dilation_extensive_erosion_antiextensive[OF dec wf b(1) b(2) b(3), of 3]
  note centre = dilation_extensive_erosion_antiextensive[OF dec wf b(4) b(5) b(3), of 3]
  have 1: "applyDilation (stubSharp inkBlock) [] 3 = Inr (data (dilationPixels inkBlock 3))"
    using corner by (simp add: stubSharp_def)
  have 2: "applyErosion (stubSharp inkBlock) [] 3 = Inr (data (erosionPixels inkBlock 3))"
    using corner by (simp add: stubSharp_def)
  have 3: "data (dilationPixels inkBlock 3) ! 0 = 0"
    using corner dk unfolding i by simp
  have 4: "data inkBlock ! 4 < 128"
    using centre er unfolding i by simp
  show ?thesis using dec wf 1 2 3 4 dk er unfolding i by simp
qed

section \<open>TextCorrector\<close>

lemma correctArabicOCRText_unfold:
  "correctArabicOCRText g rawText =
     (if \<not> apiKey g \<or> length rawText < 5 then rawText
      else case complete g (CorrectRequest rawText) of
             Inl err \<Rightarrow> rawText
           | Inr None \<Rightarrow> rawText
           | Inr (Some out) \<Rightarrow> if trim out = [] then rawText else trim out)"
  unfolding correctArabicOCRText_def trimmedContent_def
  by (auto simp: Let_def split: sum.splits option.splits)

text \<open>
  C8, as stated, fails where the collaborator's output has white space around it: the operation
  returns the trimmed output, not the output.
\<close>

theorem correctArabicOCRText_trims_counterexample:
  "complete (stubGroq (Inr (Some [0x20, 0x6F, 0x6B, 0x20]))) (CorrectRequest [0x61, 0x62, 0x63, 0x64, 0x65, 0x66])
     = Inr (Some [0x20, 0x6F, 0x6B, 0x20])
   \<and> correctArabicOCRText (stubGroq (Inr (Some [0x20, 0x6F, 0x6B, 0x20]))) [0x61, 0x62, 0x63, 0x64, 0x65, 0x66]
     = [0x6F, 0x6B]
   \<and> correctArabicOCRText (stubGroq (Inr (Some [0x20, 0x6F, 0x6B, 0x20]))) [0x61, 0x62, 0x63, 0x64, 0x65, 0x66]
     \<noteq> [0x20, 0x6F, 0x6B, 0x20]"
  by (simp add: correctArabicOCRText_unfold stubGroq_def trim_def isWhiteSpace_def)

text \<open>
  C8, amended. The operation returns the input unchanged when no key is configured or the input
  is shorter than 5 code units. Otherwise it returns the collaborator's output with leading and
  trailing white space trimmed, except that it returns the input when the collaborator throws,
  yields no content, or yields content that is empty after trimming. It never throws.
\<close>

theorem correctArabicOCRText_trimmed_output_or_input:
  "(\<not> apiKey g \<or> length rawText < 5 \<longrightarrow> correctArabicOCRText g rawText = rawText)
   \<and> (apiKey g \<and> 5 \<le> length rawText \<longrightarrow>
        (\<forall>err. complete g (CorrectRequest rawText) = Inl err \<longrightarrow>
               correctArabicOCRText g rawText = rawText)
      \<and> (complete g (CorrectRequest rawText) = Inr None \<longrightarrow>
               correctArabicOCRText g rawText = rawText)
      \<and> (\<forall>out. complete g (CorrectRequest rawText) = Inr (Some out) \<longrightarrow>
               correctArabicOCRText g rawText = (if trim out = [] then rawText else trim out)))"
  by (simp add: correctArabicOCRText_unfold)

theorem correctArabicOCRText_trimmed_output_or_input_witness:
  "correctArabicOCRText (stubGroq failing) [0x61, 0x62, 0x63, 0x64, 0x65, 0x66]
     = [0x61, 0x62, 0x63, 0x64, 0x65, 0x66]
   \<and> correctArabicOCRText (stubGroq (Inr (Some [0x6F, 0x6B, 0x20]))) [0x61, 0x62, 0x63, 0x64, 0x65, 0x66]
     = [0x6F, 0x6B]
   \<and> correctArabicOCRText (stubGroq (Inr (Some [0x20]))) [0x61, 0x62, 0x63, 0x64, 0x65, 0x66]
     = [0x61, 0x62, 0x63, 0x64, 0x65, 0x66]
   \<and> correctArabicOCRText (stubGroq (Inr (Some [0x6F, 0x6B]))) [0x61, 0x62] = [0x61, 0x62]"
  using
    correctArabicOCRText_trimmed_output_or_input
      [of "stubGroq failing" "[0x61, 0x62, 0x63, 0x64, 0x65, 0x66]"]
    correctArabicOCRText_trimmed_output_or_input
      [of "stubGroq (Inr (Some [0x6F, 0x6B, 0x20]))" "[0x61, 0x62, 0x63, 0x64, 0x65, 0x66]"]
    correctArabicOCRText_trimmed_output_or_input
      [of "stubGroq (Inr (Some [0x20]))" "[0x61, 0x62, 0x63, 0x64, 0x65, 0x66]"]
    correctArabicOCRText_trimmed_output_or_input
      [of "stubGroq (Inr (Some [0x6F, 0x6B]))" "[0x61, 0x62]"]
  by (simp add: stubGroq_def failing_def trim_def isWhiteSpace_def)

section \<open>PreprocessPipeline\<close>

text \<open>
  C1, as stated, fails twice: with \<open>attempt = 2\<close> the simplified chain is never tried, and the
  grayscale-only chain is outside every handler, so its rejection reaches the caller.
\<close>

theorem preprocessImageForOCR_raises_counterexample:
  "preprocessImageForOCR (stubSharp inkDot) [] 1 = Inl (Error [])
   \<and> sharpSimplified fallbackSharp [] = Inr [1]
   \<and> preprocessImageForOCR fallbackSharp [] 2 = Inr [2]"
  by (simp add: preprocessImageForOCR_def tenStages_def bindE_def stubSharp_def fallbackSharp_def
      failing_def)

text \<open>
  C1, amended. \<open>preprocessImageForOCR\<close> returns the output of the ten-stage sequence when that
  succeeds. When it fails and \<open>attempt < 2\<close>, the simplified chain (grayscale, normalize,
  sharpen) is tried and its output returned. When that fails too, or when \<open>attempt \<ge> 2\<close>, the
  result is that of the grayscale-only chain, its rejection included. So the operation returns
  a buffer whenever the grayscale conversion of the input succeeds.
\<close>

theorem preprocessImageForOCR_fallbacks:
  "(\<forall>out. tenStages sh imageBuffer attempt = Inr out \<longrightarrow>
        preprocessImageForOCR sh imageBuffer attempt = Inr out)
   \<and> (\<forall>err simplified. tenStages sh imageBuffer attempt = Inl err \<and> attempt < 2 \<and>
        sharpSimplified sh imageBuffer = Inr simplified \<longrightarrow>
        preprocessImageForOCR sh imageBuffer attempt = Inr simplified)
   \<and> (\<forall>err. tenStages sh imageBuffer attempt = Inl err \<and>
        (2 \<le> attempt \<or> (\<exists>err'. sharpSimplified sh imageBuffer = Inl err')) \<longrightarrow>
        preprocessImageForOCR sh imageBuffer attempt = sharpGrayscale sh imageBuffer)
   \<and> (\<forall>gray. sharpGrayscale sh imageBuffer = Inr gray \<longrightarrow>
        (\<exists>out. preprocessImageForOCR sh imageBuffer attempt = Inr out))"
  unfolding preprocessImageForOCR_def
  by (auto split: sum.splits)

theorem preprocessImageForOCR_fallbacks_witness:
  "tenStages fallbackSharp [] 1 = Inl (Error []) \<and> sharpSimplified fallbackSharp [] = Inr [1]
   \<and> preprocessImageForOCR fallbackSharp [] 1 = Inr [1]
   \<and> tenStages fallbackSharp [] 2 = Inl (Error []) \<and> sharpGrayscale fallbackSharp [] = Inr [2]
   \<and> preprocessImageForOCR fallbackSharp [] 2 = Inr [2]"
proof -
  have t: "tenStages fallbackSharp [] 1 = Inl (Error [])" "tenStages fallbackSharp [] 2 = Inl (Error [])"
    by (simp_all add: tenStages_def bindE_def fallbackSharp_def failing_def)
  have s: "sharpSimplified fallbackSharp [] = Inr [1]" "sharpGrayscale fallbackSharp [] = Inr [2]"
    by (simp_all add: fallbackSharp_def)
  from preprocessImageForOCR_fallbacks[of fallbackSharp "[]" 1]
    preprocessImageForOCR_fallbacks[of fallbackSharp "[]" 2]
  show ?thesis using t s by simp
qed

text \<open>
  The upscale of an image of 304 by 551 pixels. The scale factor is the double nearest to
  \<open>1000/304\<close>; its product with 551 is the double 1812.4999999999998, where the exact product
  is 1812.5; the new size is 1000 by 1812.
\<close>

lemma resizeStep_rounding_example:
  "resizeStep resizeProbe \<lparr>metaWidth = Some 304, metaHeight = Some 551\<rparr> [] = Inr [1]"
  by code_simp

section \<open>RecognitionAdapter\<close>

lemma extractTextFromImageWithOCR_first_fails:
  assumes "bindE (preprocessImageForOCR sh (decodeBase64 oc base64Data) 1) (recognize oc) = Inl err"
  shows "extractTextFromImageWithOCR sh oc g base64Data = (FAILED_SENTINEL, [1])"
  using assms unfolding extractTextFromImageWithOCR_def by (simp add: Let_def)

lemma extractTextFromImageWithOCR_first_long:
  assumes "bindE (preprocessImageForOCR sh (decodeBase64 oc base64Data) 1) (recognize oc) = Inr text1"
    and "\<not> tooShort (trim text1)"
  shows "extractTextFromImageWithOCR sh oc g base64Data
         = (OCR_HEADER @ correctArabicOCRText g (trim text1), [1])"
  using assms unfolding extractTextFromImageWithOCR_def by (simp add: Let_def)

lemma extractTextFromImageWithOCR_retry:
  assumes "bindE (preprocessImageForOCR sh (decodeBase64 oc base64Data) 1) (recognize oc) = Inr text1"
    and "tooShort (trim text1)"
  shows "extractTextFromImageWithOCR sh oc g base64Data =
           (case bindE (preprocessImageForOCR sh (decodeBase64 oc base64Data) 2) (recognize oc) of
              Inl err \<Rightarrow> (FAILED_SENTINEL, [1, 2])
            | Inr text2 \<Rightarrow>
                if tooShort (trim text2) then (NO_TEXT_SENTINEL, [1, 2])
                else (OCR_HEADER @ correctArabicOCRText g (trim text2), [1, 2]))"
  using assms unfolding extractTextFromImageWithOCR_def by (simp add: Let_def split: sum.splits)

text \<open>
  C4, as stated, fails where the second attempt yields a non-empty text of fewer than three
  characters: the operation returns the no-readable-text sentinel, not the attempt-2 text.
\<close>

theorem extractTextFromImageWithOCR_short_retry_counterexample:
  "bindE (preprocessImageForOCR fallbackSharp (decodeBase64 (stubOcr [0x61, 0x62]) []) 1)
     (recognize (stubOcr [0x61, 0x62])) = Inr []
   \<and> bindE (preprocessImageForOCR fallbackSharp (decodeBase64 (stubOcr [0x61, 0x62]) []) 2)
       (recognize (stubOcr [0x61, 0x62])) = Inr [0x61, 0x62]
   \<and> extractTextFromImageWithOCR fallbackSharp (stubOcr [0x61, 0x62]) (stubGroq failing) []
       = (NO_TEXT_SENTINEL, [1, 2])
   \<and> NO_TEXT_SENTINEL \<noteq> [0x61, 0x62]"
  by (simp add: extractTextFromImageWithOCR_def preprocessImageForOCR_def tenStages_def bindE_def
      fallbackSharp_def stubOcr_def failing_def trim_def tooShort_def NO_TEXT_SENTINEL_def Let_def)

text \<open>
  C4, amended. The operation never throws: its result is always a string. When the first
  preprocessing or recognition fails, it returns the extraction-failed sentinel. When the
  trimmed attempt-1 text has at least three characters, preprocessing ran once and the result
  is the OCR header followed by the corrected attempt-1 text. When the trimmed attempt-1 text
  is empty or shorter than three characters, preprocessing ran exactly twice, with attempt 1 and
  then attempt 2: the result is the extraction-failed sentinel if the second run fails, the
  no-readable-text sentinel if the trimmed attempt-2 text is again shorter than three
  characters, and otherwise the OCR header followed by the corrected, trimmed attempt-2 text.
\<close>

theorem extractTextFromImageWithOCR_retry_once:
  "(\<forall>err. bindE (preprocessImageForOCR sh (decodeBase64 oc base64Data) 1) (recognize oc) = Inl err
       \<longrightarrow> extractTextFromImageWithOCR sh oc g base64Data = (FAILED_SENTINEL, [1]))
   \<and> (\<forall>text1. bindE (preprocessImageForOCR sh (decodeBase64 oc base64Data) 1) (recognize oc) = Inr text1
       \<longrightarrow>
       (\<not> tooShort (trim text1) \<longrightarrow>
          extractTextFromImageWithOCR sh oc g base64Data
            = (OCR_HEADER @ correctArabicOCRText g (trim text1), [1]))
       \<and> (tooShort (trim text1) \<longrightarrow>
          (\<forall>err. bindE (preprocessImageForOCR sh (decodeBase64 oc base64Data) 2) (recognize oc) = Inl err
             \<longrightarrow> extractTextFromImageWithOCR sh oc g base64Data = (FAILED_SENTINEL, [1, 2]))
          \<and> (\<forall>text2. bindE (preprocessImageForOCR sh (decodeBase64 oc base64Data) 2) (recognize oc) = Inr text2
             \<longrightarrow> extractTextFromImageWithOCR sh oc g base64Data =
                   (if tooShort (trim text2) then (NO_TEXT_SENTINEL, [1, 2])
                    else (OCR_HEADER @ correctArabicOCRText g (trim text2), [1, 2])))))"
  using extractTextFromImageWithOCR_first_fails[of sh oc base64Data _ g]
    extractTextFromImageWithOCR_first_long[of sh oc base64Data _ g]
    extractTextFromImageWithOCR_retry[of sh oc base64Data _ g]
  by (auto split: sum.splits)

theorem extractTextFromImageWithOCR_retry_once_witness:
  "bindE (preprocessImageForOCR fallbackSharp (decodeBase64 (stubOcr [0x61, 0x62, 0x63]) []) 1)
     (recognize (stubOcr [0x61, 0x62, 0x63])) = Inr []
   \<and> tooShort (trim [])
   \<and> bindE (preprocessImageForOCR fallbackSharp (decodeBase64 (stubOcr [0x61, 0x62, 0x63]) []) 2)
       (recognize (stubOcr [0x61, 0x62, 0x63])) = Inr [0x61, 0x62, 0x63]
   \<and> extractTextFromImageWithOCR fallbackSharp (stubOcr [0x61, 0x62, 0x63]) (stubGroq failing) []
       = (OCR_HEADER @ [0x61, 0x62, 0x63], [1, 2])"
proof -
  have p1: "bindE (preprocessImageForOCR fallbackSharp (decodeBase64 (stubOcr [0x61, 0x62, 0x63]) []) 1)
     (recognize (stubOcr [0x61, 0x62, 0x63])) = Inr []"
    by (simp add: preprocessImageForOCR_def tenStages_def bindE_def fallbackSharp_def stubOcr_def
        failing_def)
  have p2: "bindE (preprocessImageForOCR fallbackSharp (decodeBase64 (stubOcr [0x61, 0x62, 0x63]) []) 2)
       (recognize (stubOcr [0x61, 0x62, 0x63])) = Inr [0x61, 0x62, 0x63]"
    by (simp add: preprocessImageForOCR_def tenStages_def bindE_def fallbackSharp_def stubOcr_def
        failing_def)
  have s: "tooShort (trim [])" by (simp add: tooShort_def trim_def)
  have t: "trim [0x61, 0x62, 0x63] = [0x61, 0x62, 0x63]" "\<not> tooShort [0x61, 0x62, 0x63 :: 16 word]"
    by (simp_all add: trim_def isWhiteSpace_def tooShort_def)
  have c: "correctArabicOCRText (stubGroq failing) [0x61, 0x62, 0x63] = [0x61, 0x62, 0x63]"
    by (simp add: correctArabicOCRText_unfold stubGroq_def)
  from extractTextFromImageWithOCR_retry_once
         [of fallbackSharp "stubOcr [0x61, 0x62, 0x63]" "[]" "stubGroq failing"]
  show ?thesis using p1 p2 s t c by simp
qed

section \<open>StructureDetector\<close>

lemma matchJsonArray_span:
  assumes "LBRACKET \<notin> set pre" "RBRACKET \<notin> set post"
  shows "matchJsonArray (pre @ LBRACKET # mid @ RBRACKET # post) = Some (LBRACKET # mid @ [RBRACKET])"
proof -
  have 1: "dropWhile (\<lambda>c. c \<noteq> LBRACKET) (pre @ LBRACKET # mid @ RBRACKET # post)
           = LBRACKET # mid @ RBRACKET # post"
    using assms(1) by (auto simp: dropWhile_append3)
  have "rev (mid @ RBRACKET # post) = rev post @ RBRACKET # rev mid" by simp
  then have 2: "dropWhile (\<lambda>c. c \<noteq> RBRACKET) (rev (mid @ RBRACKET # post)) = RBRACKET # rev mid"
    using assms(2) by (auto simp: dropWhile_append3)
  have 3: "rev (RBRACKET # rev mid) = mid @ [RBRACKET]" by simp
  show ?thesis unfolding matchJsonArray_def 1 by (simp add: 2 3 Let_def del: rev_append rev.simps)
qed

lemma matchJsonArray_Some:
  assumes "matchJsonArray s = Some m"
  shows "\<exists>pre mid post. s = pre @ LBRACKET # mid @ RBRACKET # post \<and> LBRACKET \<notin> set pre \<and>
           RBRACKET \<notin> set post \<and> m = LBRACKET # mid @ [RBRACKET]"
proof -
  obtain b rest where d: "dropWhile (\<lambda>c. c \<noteq> LBRACKET) s = b # rest"
    using assms unfolding matchJsonArray_def by (auto split: list.splits)
  have b: "b = LBRACKET" using hd_dropWhile[of "\<lambda>c. c \<noteq> LBRACKET" s] d by auto
  define pre where "pre = takeWhile (\<lambda>c. c \<noteq> LBRACKET) s"
  define tl where "tl = dropWhile (\<lambda>c. c \<noteq> RBRACKET) (rev rest)"
  define post where "post = rev (takeWhile (\<lambda>c. c \<noteq> RBRACKET) (rev rest))"
  have m: "m = b # rev tl" and ne: "tl \<noteq> []"
    using assms d unfolding matchJsonArray_def tl_def by (auto simp: Let_def split: if_splits)
  obtain r tl' where tl: "tl = r # tl'" using ne by (cases tl) auto
  have r: "r = RBRACKET" using hd_dropWhile[of "\<lambda>c. c \<noteq> RBRACKET" "rev rest"] tl ne
    unfolding tl_def by auto
  have "rev rest = rev post @ tl" unfolding post_def tl_def by simp
  then have "rest = rev tl @ post" by (metis rev_append rev_rev_ident)
  then have rest: "rest = rev tl' @ RBRACKET # post" using tl r by simp
  have s: "s = pre @ LBRACKET # rest" unfolding pre_def using d b
    by (metis takeWhile_dropWhile_id)
  have p1: "LBRACKET \<notin> set pre" unfolding pre_def using set_takeWhileD by fastforce
  have "RBRACKET \<notin> set (rev post)" unfolding post_def using set_takeWhileD by fastforce
  then have p2: "RBRACKET \<notin> set post" by simp
  have "m = LBRACKET # rev tl' @ [RBRACKET]" using m b tl r by simp
  then show ?thesis using s rest p1 p2 by blast
qed

lemma matchJsonArray_None:
  assumes "matchJsonArray s = None"
  shows "\<not> (\<exists>pre mid post. s = pre @ LBRACKET # mid @ RBRACKET # post)"
proof
  assume "\<exists>pre mid post. s = pre @ LBRACKET # mid @ RBRACKET # post"
  then obtain pre mid post where s: "s = pre @ LBRACKET # mid @ RBRACKET # post" by blast
  have "\<exists>rest. dropWhile (\<lambda>c. c \<noteq> LBRACKET) s = LBRACKET # rest \<and> RBRACKET \<in> set rest"
  proof (cases "LBRACKET \<in> set pre")
    case False
    then have "dropWhile (\<lambda>c. c \<noteq> LBRACKET) s = LBRACKET # mid @ RBRACKET # post"
      unfolding s by (auto simp: dropWhile_append3)
    then show ?thesis by simp
  next
    case True
    then have ne: "dropWhile (\<lambda>c. c \<noteq> LBRACKET) pre \<noteq> []" by (simp add: dropWhile_eq_Nil_conv)
    then obtain b r where d: "dropWhile (\<lambda>c. c \<noteq> LBRACKET) pre = b # r"
      by (cases "dropWhile (\<lambda>c. c \<noteq> LBRACKET) pre") auto
    have b: "b = LBRACKET" using hd_dropWhile[OF ne] d by auto
    have "dropWhile (\<lambda>c. c \<noteq> LBRACKET) s = (b # r) @ LBRACKET # mid @ RBRACKET # post"
      unfolding s d[symmetric] using True by (simp add: dropWhile_append1)
    then show ?thesis using b by simp
  qed
  then obtain rest where d: "dropWhile (\<lambda>c. c \<noteq> LBRACKET) s = LBRACKET # rest"
    and r: "RBRACKET \<in> set rest" by blast
  have "dropWhile (\<lambda>c. c \<noteq> RBRACKET) (rev rest) \<noteq> []" using r by (simp add: dropWhile_eq_Nil_conv)
  then have "matchJsonArray s \<noteq> None" unfolding matchJsonArray_def d by (simp add: Let_def)
  then show False using assms by simp
qed

lemma bracket_span_first_last:
  assumes "\<exists>pre mid post. s = pre @ LBRACKET # mid @ RBRACKET # post"
  shows "\<exists>pre mid post. s = pre @ LBRACKET # mid @ RBRACKET # post \<and>
           LBRACKET \<notin> set pre \<and> RBRACKET \<notin> set post"
proof (cases "matchJsonArray s")
  case None
  then show ?thesis using matchJsonArray_None assms by blast
next
  case (Some m)
  from matchJsonArray_Some[OF Some] show ?thesis by blast
qed

lemma sequenceE_fails:
  "(\<exists>r\<in>set rs. \<exists>e. r = Inl e) \<Longrightarrow> \<exists>e. sequenceE rs = Inl e"
proof (induction rs)
  case Nil
  then show ?case by simp
next
  case (Cons r rs)
  then show ?case by (cases r; cases "sequenceE rs") (auto simp: bindE_def)
qed

lemma sectionText_null: "\<exists>e. sectionText JNull = Inl e"
  unfolding sectionText_def getProperty_def typeError_def bindE_def by simp

lemma flattenSections_null:
  assumes "JNull \<in> set secs"
  shows "\<exists>e. flattenSections secs = Inl e"
proof -
  have "\<exists>r\<in>set (map sectionText secs). \<exists>e. r = Inl e" using assms sectionText_null by auto
  from sequenceE_fails[OF this] show ?thesis unfolding flattenSections_def bindE_def by auto
qed

lemma sectionText_typed:
  assumes "isDocumentSection s"
  shows "sectionText s = Inr (titleAndContent s)"
  using assms unfolding isDocumentSection_def stringField_def titleAndContent_def sectionText_def
    getProperty_def templateString_def bindE_def
  by (auto split: json.splits option.splits)

lemma flattenSections_typed:
  assumes "\<forall>s\<in>set secs. isDocumentSection s"
  shows "flattenSections secs = Inr (joinWith [NEWLINE, NEWLINE] (map titleAndContent secs))"
proof -
  have "sequenceE (map sectionText secs) = Inr (map titleAndContent secs)"
    using assms by (induction secs) (auto simp: bindE_def sectionText_typed)
  then show ?thesis unfolding flattenSections_def bindE_def by simp
qed

lemma detectHeadingsFromText_noop:
  "\<not> apiKey g \<or> length rawText < 100 \<Longrightarrow> detectHeadingsFromText g jsonParse rawText = defaultResult rawText"
  unfolding detectHeadingsFromText_def by auto

lemma detectHeadingsFromText_no_response:
  assumes "apiKey g" "100 \<le> length rawText"
    and "complete g (HeadingRequest (if length rawText > 8000 then slice rawText 0 8000 else rawText))
           = answer"
    and "(\<exists>e. answer = Inl e) \<or> answer = Inr None \<or> (\<exists>response. answer = Inr (Some response) \<and> trim response = [])"
  shows "detectHeadingsFromText g jsonParse rawText = defaultResult rawText"
  using assms unfolding detectHeadingsFromText_def trimmedContent_def bindE_def
  by (auto simp: Let_def)

lemma detectHeadingsFromText_response:
  assumes "apiKey g" "100 \<le> length rawText"
    and "complete g (HeadingRequest (if length rawText > 8000 then slice rawText 0 8000 else rawText))
           = Inr (Some response)"
    and "trim response \<noteq> []"
  shows "detectHeadingsFromText g jsonParse rawText =
           (case sectionsFromResponse jsonParse rawText (trim response) of
              Inl err \<Rightarrow> defaultResult rawText | Inr result \<Rightarrow> result)"
  using assms unfolding detectHeadingsFromText_def trimmedContent_def bindE_def
  by (auto simp: Let_def)

lemma sectionsFromResponse_span:
  assumes "matchJsonArray responseText = Some jsonMatch"
  shows "(case sectionsFromResponse jsonParse rawText responseText of
            Inl err \<Rightarrow> defaultResult rawText | Inr result \<Rightarrow> result) =
         (case jsonParse jsonMatch of
            Inr (JArray secs) \<Rightarrow>
              (case flattenSections secs of
                 Inl e \<Rightarrow> defaultResult rawText
               | Inr flat \<Rightarrow> \<lparr>sections = secs, plainText = flat\<rparr>)
          | _ \<Rightarrow> defaultResult rawText)"
  unfolding sectionsFromResponse_def assms bindE_def typeError_def
  by (auto split: sum.splits json.splits)

lemma sectionsFromResponse_no_span:
  assumes "matchJsonArray responseText = None"
  shows "sectionsFromResponse jsonParse rawText responseText = Inr (defaultResult rawText)"
  unfolding sectionsFromResponse_def assms by simp

lemma sectionsFromResponse_no_array:
  assumes none: "\<forall>pre t post. responseText = pre @ t @ post \<longrightarrow> \<not> wellFormedArray jsonParse t"
  shows "(case sectionsFromResponse jsonParse rawText responseText of
            Inl err \<Rightarrow> defaultResult rawText | Inr result \<Rightarrow> result) = defaultResult rawText"
proof (cases "matchJsonArray responseText")
  case None
  then show ?thesis by (simp add: sectionsFromResponse_no_span)
next
  case (Some m)
  from matchJsonArray_Some[OF Some] obtain pre mid post
    where sub: "responseText = pre @ LBRACKET # mid @ RBRACKET # post"
      and m: "m = LBRACKET # mid @ [RBRACKET]" by blast
  have "responseText = pre @ m @ post" using sub m by simp
  then have "\<not> wellFormedArray jsonParse m" using none by blast
  then have "\<not> (\<exists>secs. jsonParse m = Inr (JArray secs))"
    unfolding wellFormedArray_def using m by (auto split: sum.splits json.splits)
  then show ?thesis unfolding sectionsFromResponse_span[OF Some]
    by (auto split: sum.splits json.splits)
qed

text \<open>
  C9, as stated, fails where a closing bracket follows the array: the match runs from the first
  \<^verbatim>\<open>[\<close> to the last \<^verbatim>\<open>]\<close> of the response, so for the response \<^verbatim>\<open>[] ]\<close> the text handed to the
  parser is \<^verbatim>\<open>[] ]\<close>, not the first well-formed array \<^verbatim>\<open>[]\<close>, and the detector falls back,
  where extracting the first well-formed array gives the empty list of sections.
\<close>

theorem detectHeadingsFromText_greedy_counterexample:
  "firstWellFormedArray emptyArrayParse [LBRACKET, RBRACKET, 0x20, RBRACKET] = Some [LBRACKET, RBRACKET]
   \<and> sectionsFromResponseSpec emptyArrayParse hundredLetters [LBRACKET, RBRACKET, 0x20, RBRACKET]
       = \<lparr>sections = [], plainText = []\<rparr>
   \<and> matchJsonArray [LBRACKET, RBRACKET, 0x20, RBRACKET] = Some [LBRACKET, RBRACKET, 0x20, RBRACKET]
   \<and> detectHeadingsFromText (stubGroq (Inr (Some [LBRACKET, RBRACKET, 0x20, RBRACKET])))
         emptyArrayParse hundredLetters
       = \<lparr>sections = [JObject [(KEY_TYPE, JString STR_MAIN), (KEY_TITLE, JString DEFAULT_TITLE),
                                (KEY_CONTENT, JString hundredLetters)]],
          plainText = hundredLetters\<rparr>"
proof -
  have f: "firstWellFormedArray emptyArrayParse [LBRACKET, RBRACKET, 0x20, RBRACKET]
           = Some [LBRACKET, RBRACKET]"
    by (simp add: firstWellFormedArray_def substringsFrom_def slice_def wellFormedArray_def
        emptyArrayParse_def failing_def upt_rec LBRACKET_def RBRACKET_def)
  have s: "sectionsFromResponseSpec emptyArrayParse hundredLetters [LBRACKET, RBRACKET, 0x20, RBRACKET]
       = \<lparr>sections = [], plainText = []\<rparr>"
    unfolding sectionsFromResponseSpec_def f
    by (simp add: emptyArrayParse_def flattenSections_def bindE_def)
  have m: "matchJsonArray [LBRACKET, RBRACKET, 0x20, RBRACKET] = Some [LBRACKET, RBRACKET, 0x20, RBRACKET]"
    by (simp add: matchJsonArray_def LBRACKET_def RBRACKET_def)
  have t: "trim [LBRACKET, RBRACKET, 0x20, RBRACKET] = [LBRACKET, RBRACKET, 0x20, RBRACKET]"
    by (simp add: trim_def isWhiteSpace_def LBRACKET_def RBRACKET_def)
  have d: "detectHeadingsFromText (stubGroq (Inr (Some [LBRACKET, RBRACKET, 0x20, RBRACKET])))
         emptyArrayParse hundredLetters
       = (case sectionsFromResponse emptyArrayParse hundredLetters [LBRACKET, RBRACKET, 0x20, RBRACKET] of
            Inl err \<Rightarrow> defaultResult hundredLetters | Inr result \<Rightarrow> result)"
    unfolding detectHeadingsFromText_def trimmedContent_def bindE_def
    by (simp add: stubGroq_def hundredLetters_def Let_def t)
  have "sectionsFromResponse emptyArrayParse hundredLetters [LBRACKET, RBRACKET, 0x20, RBRACKET]
        = Inr (defaultResult hundredLetters)"
    unfolding sectionsFromResponse_def m
    by (simp add: emptyArrayParse_def failing_def LBRACKET_def RBRACKET_def)
  with d f s m show ?thesis by (simp add: defaultResult_def)
qed

text \<open>
  C9, amended. Without a key, for a text of fewer than 100 code units, when the collaborator
  throws, and when its response is absent or empty after trimming, \<open>detectHeadingsFromText\<close>
  returns the single-section fallback: one section of type \<^verbatim>\<open>main\<close> with the default title and
  the whole input text as its content, and the input text as the plain text. Otherwise the
  detector looks at the span from the first \<^verbatim>\<open>[\<close> to the last \<^verbatim>\<open>]\<close> of the trimmed response:
  surrounding text is tolerated when it has no \<^verbatim>\<open>[\<close> before the array and no \<^verbatim>\<open>]\<close> after it.
  When the response has no \<^verbatim>\<open>[\<close> followed by a \<^verbatim>\<open>]\<close>, the result is the fallback; when it has
  one, it has such a span. When the span parses to an array and flattening its elements throws
  no error, the sections are the parsed array and the plain text their flattening; for sections
  that are objects with a string \<^verbatim>\<open>title\<close> and a string \<^verbatim>\<open>content\<close> the flattening is title,
  blank line, content, the sections separated by blank lines. In every other case the result is the fallback: the span does not parse, it
  parses to a value that is not an array, or flattening throws, as it does when an element is
  \<^verbatim>\<open>null\<close>. In particular, a response of which no substring is a well-formed JSON array yields
  the fallback.
\<close>

theorem detectHeadingsFromText_parses_bracket_span:
  assumes resp: "complete g (HeadingRequest (if length rawText > 8000 then slice rawText 0 8000 else rawText))
                   = answer"
  shows "(\<not> apiKey g \<or> length rawText < 100 \<longrightarrow>
            detectHeadingsFromText g jsonParse rawText = defaultResult rawText)
       \<and> (apiKey g \<and> 100 \<le> length rawText \<longrightarrow>
            ((\<exists>e. answer = Inl e) \<or> answer = Inr None \<longrightarrow>
               detectHeadingsFromText g jsonParse rawText = defaultResult rawText)
          \<and> (\<forall>response. answer = Inr (Some response) \<longrightarrow>
               (trim response = [] \<longrightarrow>
                  detectHeadingsFromText g jsonParse rawText = defaultResult rawText)
             \<and> (\<not> (\<exists>pre mid post. trim response = pre @ LBRACKET # mid @ RBRACKET # post) \<longrightarrow>
                  detectHeadingsFromText g jsonParse rawText = defaultResult rawText)
             \<and> ((\<exists>pre mid post. trim response = pre @ LBRACKET # mid @ RBRACKET # post) \<longrightarrow>
                  (\<exists>pre mid post. trim response = pre @ LBRACKET # mid @ RBRACKET # post \<and>
                     LBRACKET \<notin> set pre \<and> RBRACKET \<notin> set post))
             \<and> (\<forall>pre mid post. trim response = pre @ LBRACKET # mid @ RBRACKET # post \<and>
                    LBRACKET \<notin> set pre \<and> RBRACKET \<notin> set post \<longrightarrow>
                  detectHeadingsFromText g jsonParse rawText =
                    (case jsonParse (LBRACKET # mid @ [RBRACKET]) of
                       Inr (JArray secs) \<Rightarrow>
                         (case flattenSections secs of
                            Inl e \<Rightarrow> defaultResult rawText
                          | Inr flat \<Rightarrow> \<lparr>sections = secs, plainText = flat\<rparr>)
                     | _ \<Rightarrow> defaultResult rawText)
                \<and> (\<forall>secs. jsonParse (LBRACKET # mid @ [RBRACKET]) = Inr (JArray secs) \<longrightarrow>
                      (JNull \<in> set secs \<longrightarrow>
                         detectHeadingsFromText g jsonParse rawText = defaultResult rawText)
                    \<and> ((\<forall>s\<in>set secs. isDocumentSection s) \<longrightarrow>
                         detectHeadingsFromText g jsonParse rawText =
                           \<lparr>sections = secs,
                            plainText = joinWith [NEWLINE, NEWLINE] (map titleAndContent secs)\<rparr>)))
             \<and> ((\<forall>pre t post. trim response = pre @ t @ post \<longrightarrow> \<not> wellFormedArray jsonParse t) \<longrightarrow>
                  detectHeadingsFromText g jsonParse rawText = defaultResult rawText)))
       \<and> defaultResult rawText =
           \<lparr>sections = [JObject [(KEY_TYPE, JString STR_MAIN), (KEY_TITLE, JString DEFAULT_TITLE),
                                 (KEY_CONTENT, JString rawText)]],
            plainText = rawText\<rparr>"
proof -
  let ?D = "detectHeadingsFromText g jsonParse rawText"
  have noop: "?D = defaultResult rawText" if "\<not> apiKey g \<or> length rawText < 100"
    using that by (rule detectHeadingsFromText_noop)
  have none: "?D = defaultResult rawText"
    if "apiKey g" "100 \<le> length rawText" "(\<exists>e. answer = Inl e) \<or> answer = Inr None"
    using detectHeadingsFromText_no_response[OF that(1,2) resp] that(3) by blast
  have empty: "?D = defaultResult rawText"
    if "apiKey g" "100 \<le> length rawText" "answer = Inr (Some response)" "trim response = []"
    for response
    using detectHeadingsFromText_no_response[OF that(1,2) resp] that(3,4) by blast
  have nospan: "?D = defaultResult rawText"
    if k: "apiKey g" "100 \<le> length rawText" and a: "answer = Inr (Some response)"
      and n: "\<not> (\<exists>pre mid post. trim response = pre @ LBRACKET # mid @ RBRACKET # post)"
    for response
  proof (cases "trim response = []")
    case True
    then show ?thesis using empty[OF k a] by simp
  next
    case False
    have m: "matchJsonArray (trim response) = None"
    proof (cases "matchJsonArray (trim response)")
      case None
      then show ?thesis .
    next
      case (Some m)
      from matchJsonArray_Some[OF Some] n show ?thesis by blast
    qed
    show ?thesis
      unfolding detectHeadingsFromText_response[OF k resp[unfolded a] False]
        sectionsFromResponse_no_span[OF m] by simp
  qed
  have span: "?D = (case jsonParse (LBRACKET # mid @ [RBRACKET]) of
                       Inr (JArray secs) \<Rightarrow>
                         (case flattenSections secs of
                            Inl e \<Rightarrow> defaultResult rawText
                          | Inr flat \<Rightarrow> \<lparr>sections = secs, plainText = flat\<rparr>)
                     | _ \<Rightarrow> defaultResult rawText)"
    if k: "apiKey g" "100 \<le> length rawText" and a: "answer = Inr (Some response)"
      and t: "trim response = pre @ LBRACKET # mid @ RBRACKET # post"
      and b: "LBRACKET \<notin> set pre" "RBRACKET \<notin> set post"
    for response pre mid post
  proof -
    have ne: "trim response \<noteq> []" unfolding t by simp
    have m: "matchJsonArray (trim response) = Some (LBRACKET # mid @ [RBRACKET])"
      unfolding t by (rule matchJsonArray_span[OF b])
    show ?thesis
      unfolding detectHeadingsFromText_response[OF k resp[unfolded a] ne]
      by (rule sectionsFromResponse_span[OF m])
  qed
  have null: "?D = defaultResult rawText"
    if k: "apiKey g" "100 \<le> length rawText" and a: "answer = Inr (Some response)"
      and t: "trim response = pre @ LBRACKET # mid @ RBRACKET # post"
      and b: "LBRACKET \<notin> set pre" "RBRACKET \<notin> set post"
      and p: "jsonParse (LBRACKET # mid @ [RBRACKET]) = Inr (JArray secs)" and n: "JNull \<in> set secs"
    for response pre mid post secs
  proof -
    from flattenSections_null[OF n] obtain e where "flattenSections secs = Inl e" by blast
    then show ?thesis unfolding span[OF k a t b] p by simp
  qed
  have typed: "?D = \<lparr>sections = secs, plainText = joinWith [NEWLINE, NEWLINE] (map titleAndContent secs)\<rparr>"
    if k: "apiKey g" "100 \<le> length rawText" and a: "answer = Inr (Some response)"
      and t: "trim response = pre @ LBRACKET # mid @ RBRACKET # post"
      and b: "LBRACKET \<notin> set pre" "RBRACKET \<notin> set post"
      and p: "jsonParse (LBRACKET # mid @ [RBRACKET]) = Inr (JArray secs)"
      and n: "\<forall>s\<in>set secs. isDocumentSection s"
    for response pre mid post secs
    unfolding span[OF k a t b] p using flattenSections_typed[OF n] by simp
  have noarray: "?D = defaultResult rawText"
    if k: "apiKey g" "100 \<le> length rawText" and a: "answer = Inr (Some response)"
      and n: "\<forall>pre t post. trim response = pre @ t @ post \<longrightarrow> \<not> wellFormedArray jsonParse t"
    for response
  proof (cases "trim response = []")
    case True
    then show ?thesis using empty[OF k a] by simp
  next
    case False
    show ?thesis
      unfolding detectHeadingsFromText_response[OF k resp[unfolded a] False]
      by (rule sectionsFromResponse_no_array[OF n])
  qed
  have dflt: "defaultResult rawText =
           \<lparr>sections = [JObject [(KEY_TYPE, JString STR_MAIN), (KEY_TITLE, JString DEFAULT_TITLE),
                                 (KEY_CONTENT, JString rawText)]],
            plainText = rawText\<rparr>"
    by (simp add: defaultResult_def)
  have perResponse: "(trim response = [] \<longrightarrow> ?D = defaultResult rawText)
             \<and> (\<not> (\<exists>pre mid post. trim response = pre @ LBRACKET # mid @ RBRACKET # post) \<longrightarrow>
                  ?D = defaultResult rawText)
             \<and> ((\<exists>pre mid post. trim response = pre @ LBRACKET # mid @ RBRACKET # post) \<longrightarrow>
                  (\<exists>pre mid post. trim response = pre @ LBRACKET # mid @ RBRACKET # post \<and>
                     LBRACKET \<notin> set pre \<and> RBRACKET \<notin> set post))
             \<and> (\<forall>pre mid post. trim response = pre @ LBRACKET # mid @ RBRACKET # post \<and>
                    LBRACKET \<notin> set pre \<and> RBRACKET \<notin> set post \<longrightarrow>
                  ?D =
                    (case jsonParse (LBRACKET # mid @ [RBRACKET]) of
                       Inr (JArray secs) \<Rightarrow>
                         (case flattenSections secs of
                            Inl e \<Rightarrow> defaultResult rawText
                          | Inr flat \<Rightarrow> \<lparr>sections = secs, plainText = flat\<rparr>)
                     | _ \<Rightarrow> defaultResult rawText)
                \<and> (\<forall>secs. jsonParse (LBRACKET # mid @ [RBRACKET]) = Inr (JArray secs) \<longrightarrow>
                      (JNull \<in> set secs \<longrightarrow> ?D = defaultResult rawText)
                    \<and> ((\<forall>s\<in>set secs. isDocumentSection s) \<longrightarrow>
                         ?D =
                           \<lparr>sections = secs,
                            plainText = joinWith [NEWLINE, NEWLINE] (map titleAndContent secs)\<rparr>)))
             \<and> ((\<forall>pre t post. trim response = pre @ t @ post \<longrightarrow> \<not> wellFormedArray jsonParse t) \<longrightarrow>
                  ?D = defaultResult rawText)"
    if k: "apiKey g" "100 \<le> length rawText" and a: "answer = Inr (Some response)" for response
  proof -
    have rest: "(trim response = [] \<longrightarrow> ?D = defaultResult rawText)
             \<and> (\<not> (\<exists>pre mid post. trim response = pre @ LBRACKET # mid @ RBRACKET # post) \<longrightarrow>
                  ?D = defaultResult rawText)
             \<and> (\<forall>pre mid post. trim response = pre @ LBRACKET # mid @ RBRACKET # post \<and>
                    LBRACKET \<notin> set pre \<and> RBRACKET \<notin> set post \<longrightarrow>
                  ?D =
                    (case jsonParse (LBRACKET # mid @ [RBRACKET]) of
                       Inr (JArray secs) \<Rightarrow>
                         (case flattenSections secs of
                            Inl e \<Rightarrow> defaultResult rawText
                          | Inr flat \<Rightarrow> \<lparr>sections = secs, plainText = flat\<rparr>)
                     | _ \<Rightarrow> defaultResult rawText)
                \<and> (\<forall>secs. jsonParse (LBRACKET # mid @ [RBRACKET]) = Inr (JArray secs) \<longrightarrow>
                      (JNull \<in> set secs \<longrightarrow> ?D = defaultResult rawText)
                    \<and> ((\<forall>s\<in>set secs. isDocumentSection s) \<longrightarrow>
                         ?D =
                           \<lparr>sections = secs,
                            plainText = joinWith [NEWLINE, NEWLINE] (map titleAndContent secs)\<rparr>)))
             \<and> ((\<forall>pre t post. trim response = pre @ t @ post \<longrightarrow> \<not> wellFormedArray jsonParse t) \<longrightarrow>
                  ?D = defaultResult rawText)"
      using empty[OF k a] nospan[OF k a] span[OF k a] null[OF k a] typed[OF k a] noarray[OF k a]
      by blast
    show ?thesis using rest bracket_span_first_last[of "trim response"] by blast
  qed
  show ?thesis using noop none perResponse dflt by blast
qed

theorem detectHeadingsFromText_parses_bracket_span_witness:
  "trim wrappedArrayText = [0x6F, 0x6B, 0x20] @ LBRACKET # [0x7B, 0x7D] @ RBRACKET # [0x2E]
   \<and> sampleParse (LBRACKET # [0x7B, 0x7D] @ [RBRACKET]) = Inr (JArray [JObject []])
   \<and> detectHeadingsFromText (stubGroq (Inr (Some wrappedArrayText))) sampleParse hundredLetters
      = \<lparr>sections = [JObject []], plainText = STR_UNDEFINED @ [NEWLINE, NEWLINE] @ STR_UNDEFINED\<rparr>
   \<and> trim nullArrayText = [] @ LBRACKET # [0x6E, 0x75, 0x6C, 0x6C] @ RBRACKET # []
   \<and> sampleParse (LBRACKET # [0x6E, 0x75, 0x6C, 0x6C] @ [RBRACKET]) = Inr (JArray [JNull])
   \<and> detectHeadingsFromText (stubGroq (Inr (Some nullArrayText))) sampleParse hundredLetters
      = defaultResult hundredLetters
   \<and> detectHeadingsFromText (stubGroq (Inr (Some [LBRACKET]))) sampleParse hundredLetters
      = defaultResult hundredLetters
   \<and> detectHeadingsFromText (stubGroq failing) sampleParse hundredLetters
      = defaultResult hundredLetters"
proof -
  have key: "apiKey (stubGroq a)" for a by (simp add: stubGroq_def)
  have long: "100 \<le> length hundredLetters" by (simp add: hundredLetters_def)
  have resp: "complete (stubGroq a) (HeadingRequest (if length hundredLetters > 8000
                 then slice hundredLetters 0 8000 else hundredLetters)) = a" for a
    by (simp add: stubGroq_def)
  have t1: "trim wrappedArrayText = [0x6F, 0x6B, 0x20] @ LBRACKET # [0x7B, 0x7D] @ RBRACKET # [0x2E]"
    by (simp add: wrappedArrayText_def trim_def isWhiteSpace_def LBRACKET_def RBRACKET_def)
  have nb1: "LBRACKET \<notin> set [0x6F, 0x6B, 0x20]" "RBRACKET \<notin> set [0x2E]"
    by (simp_all add: LBRACKET_def RBRACKET_def)
  have p1: "sampleParse (LBRACKET # [0x7B, 0x7D] @ [RBRACKET]) = Inr (JArray [JObject []])"
    by (simp add: sampleParse_def objectArrayText_def nullArrayText_def LBRACKET_def RBRACKET_def)
  have f1: "flattenSections [JObject []] = Inr (STR_UNDEFINED @ [NEWLINE, NEWLINE] @ STR_UNDEFINED)"
    by (simp add: flattenSections_def sectionText_def getProperty_def templateString_def bindE_def)
  have t2: "trim nullArrayText = [] @ LBRACKET # [0x6E, 0x75, 0x6C, 0x6C] @ RBRACKET # []"
    by (simp add: nullArrayText_def trim_def isWhiteSpace_def LBRACKET_def RBRACKET_def)
  have p2: "sampleParse (LBRACKET # [0x6E, 0x75, 0x6C, 0x6C] @ [RBRACKET]) = Inr (JArray [JNull])"
    by (simp add: sampleParse_def objectArrayText_def nullArrayText_def LBRACKET_def RBRACKET_def)
  have t3: "\<not> (\<exists>pre mid post. trim [LBRACKET] = pre @ LBRACKET # mid @ RBRACKET # post)"
  proof
    assume "\<exists>pre mid post. trim [LBRACKET] = pre @ LBRACKET # mid @ RBRACKET # post"
    then obtain pre mid post where "trim [LBRACKET] = pre @ LBRACKET # mid @ RBRACKET # post" by blast
    moreover have "trim [LBRACKET] = [LBRACKET]"
      by (simp add: trim_def isWhiteSpace_def LBRACKET_def)
    ultimately have "length [LBRACKET] = length (pre @ LBRACKET # mid @ RBRACKET # post)" by simp
    then show False by simp
  qed
  note wrapped = detectHeadingsFromText_parses_bracket_span[OF resp, of "Inr (Some wrappedArrayText)" sampleParse]
  note nulled = detectHeadingsFromText_parses_bracket_span[OF resp, of "Inr (Some nullArrayText)" sampleParse]
  note unclosed = detectHeadingsFromText_parses_bracket_span[OF resp, of "Inr (Some [LBRACKET])" sampleParse]
  note thrown = detectHeadingsFromText_parses_bracket_span[OF resp, of failing sampleParse]
  have 1: "detectHeadingsFromText (stubGroq (Inr (Some wrappedArrayText))) sampleParse hundredLetters
      = \<lparr>sections = [JObject []], plainText = STR_UNDEFINED @ [NEWLINE, NEWLINE] @ STR_UNDEFINED\<rparr>"
  proof -
    have "detectHeadingsFromText (stubGroq (Inr (Some wrappedArrayText))) sampleParse hundredLetters =
            (case sampleParse (LBRACKET # [0x7B, 0x7D] @ [RBRACKET]) of
               Inr (JArray secs) \<Rightarrow>
                 (case flattenSections secs of
                    Inl e \<Rightarrow> defaultResult hundredLetters
                  | Inr flat \<Rightarrow> \<lparr>sections = secs, plainText = flat\<rparr>)
             | _ \<Rightarrow> defaultResult hundredLetters)"
      using wrapped key long t1 nb1 by blast
    then show ?thesis unfolding p1 by (simp add: f1)
  qed
  have 2: "detectHeadingsFromText (stubGroq (Inr (Some nullArrayText))) sampleParse hundredLetters
      = defaultResult hundredLetters"
  proof -
    have "LBRACKET \<notin> set []" "RBRACKET \<notin> set []" "JNull \<in> set [JNull]" by simp_all
    then show ?thesis using nulled key long t2 p2 by blast
  qed
  have 3: "detectHeadingsFromText (stubGroq (Inr (Some [LBRACKET]))) sampleParse hundredLetters
      = defaultResult hundredLetters"
    using unclosed key long t3 by blast
  have 4: "detectHeadingsFromText (stubGroq failing) sampleParse hundredLetters
      = defaultResult hundredLetters"
    using thrown key long by (simp add: failing_def)
  show ?thesis using t1 p1 1 t2 p2 2 3 4 by simp
qed

section \<open>JavaScript numbers: rounding and comparison\<close>

lemma pow2_pos: "0 < pow2 e"
  unfolding pow2_def by simp

lemma pow2_add: "pow2 (a + b) = pow2 a * pow2 b"
proof -
  have "pow2 e = 2 powi e" for e
    unfolding pow2_def power_int_def by (simp add: field_simps)
  then show ?thesis by (simp add: power_int_add)
qed

lemma pow2_mono: "a \<le> b \<Longrightarrow> pow2 a \<le> pow2 b"
proof -
  assume "a \<le> b"
  have e: "pow2 e = 2 powi e" for e
    unfolding pow2_def power_int_def by (simp add: field_simps)
  show ?thesis unfolding e by (rule power_int_increasing) (use \<open>a \<le> b\<close> in simp_all)
qed

lemma pow2_nat: "0 \<le> e \<Longrightarrow> pow2 e = 2 ^ nat e"
  unfolding pow2_def by simp

lemma bitLength_bounds:
  "0 < n \<Longrightarrow> 1 \<le> bitLength n \<and> 2 ^ nat (bitLength n - 1) \<le> n \<and> n < 2 ^ nat (bitLength n)"
proof (induction n rule: bitLength.induct)
  case (1 n)
  show ?case
  proof (cases "n div 2 = 0")
    case True
    then have n1: "n = 1" using "1.prems" by presburger
    have "bitLength 1 = 1" by (simp add: bitLength.simps)
    then show ?thesis unfolding n1 by simp
  next
    case False
    then have h: "0 < n div 2" using "1.prems" by presburger
    have nle: "\<not> n \<le> 0" using "1.prems" by simp
    from "1.IH"[OF nle h] have IH: "1 \<le> bitLength (n div 2)"
      "2 ^ nat (bitLength (n div 2) - 1) \<le> n div 2" "n div 2 < 2 ^ nat (bitLength (n div 2))"
      by auto
    have b: "bitLength n = 1 + bitLength (n div 2)" using nle by (subst bitLength.simps) simp
    define k where "k = nat (bitLength (n div 2) - 1)"
    have k1: "nat (bitLength (n div 2)) = Suc k" using IH(1) unfolding k_def by simp
    have k2: "nat (bitLength n - 1) = Suc k" "nat (bitLength n) = Suc (Suc k)"
      unfolding b using IH(1) k1 by simp_all
    define p :: int where "p = 2 ^ k"
    have ip: "p \<le> n div 2" "n div 2 < 2 * p"
      using IH(2,3) unfolding k_def[symmetric] k1 p_def by simp_all
    have lo: "2 * p \<le> n" using ip(1) by presburger
    have hi: "n < 2 * (2 * p)" using ip(2) by presburger
    show ?thesis unfolding k2 using lo hi IH(1) b unfolding p_def by simp
  qed
qed


lemma bitLength_pow2:
  assumes "0 < n"
  shows "pow2 (bitLength n - 1) \<le> of_int n \<and> of_int n < pow2 (bitLength n)"
proof -
  from bitLength_bounds[OF assms]
  have b: "1 \<le> bitLength n" "2 ^ nat (bitLength n - 1) \<le> n" "n < 2 ^ nat (bitLength n)" by auto
  have "(of_int (2 ^ nat (bitLength n - 1)) :: rat) \<le> of_int n" using b(2) by (simp only: of_int_le_iff)
  moreover have "(of_int n :: rat) < of_int (2 ^ nat (bitLength n))" using b(3) by (simp only: of_int_less_iff)
  ultimately show ?thesis using b(1) by (simp add: pow2_nat)
qed

lemma floorLog2_bounds:
  assumes "0 < q"
  shows "pow2 (floorLog2 q) \<le> q \<and> q < pow2 (floorLog2 q + 1)"
proof -
  obtain a b where ab: "quotient_of q = (a, b)" by (cases "quotient_of q")
  have bpos: "0 < b" using quotient_of_denom_pos[OF ab] .
  have q: "q = of_int a / of_int b" using quotient_of_div[OF ab] .
  have apos: "0 < a"
  proof (rule ccontr)
    assume "\<not> 0 < a"
    then have "(of_int a :: rat) \<le> 0" by simp
    then have "q \<le> 0" unfolding q using bpos by (simp add: divide_nonpos_pos)
    then show False using assms by simp
  qed
  define d where "d = bitLength a - bitLength b"
  have fl: "floorLog2 q = (if pow2 d \<le> q then d else d - 1)"
    unfolding floorLog2_def ab d_def by (simp add: Let_def)
  have A: "pow2 (bitLength a - 1) \<le> of_int a" "of_int a < pow2 (bitLength a)"
    using bitLength_pow2[OF apos] by auto
  have B: "pow2 (bitLength b - 1) \<le> of_int b" "of_int b < pow2 (bitLength b)"
    using bitLength_pow2[OF bpos] by auto
  have rb: "(0::rat) < of_int b" using bpos by simp
  have upper: "q < pow2 (d + 1)"
  proof -
    have "pow2 (bitLength a) = pow2 (d + 1) * pow2 (bitLength b - 1)"
      unfolding d_def pow2_add[symmetric] by simp
    also have "\<dots> \<le> pow2 (d + 1) * of_int b"
      using B(1) pow2_pos[of "d + 1"] by (simp add: mult_left_mono)
    finally have "of_int a < pow2 (d + 1) * of_int b" using A(2) by simp
    then show ?thesis unfolding q using rb by (simp add: pos_divide_less_eq)
  qed
  have lower: "pow2 (d - 1) \<le> q"
  proof -
    have "pow2 (d - 1) * of_int b \<le> pow2 (d - 1) * pow2 (bitLength b)"
      using B(2) pow2_pos[of "d - 1"] by (simp add: mult_left_mono)
    also have "\<dots> = pow2 (bitLength a - 1)"
      unfolding d_def pow2_add[symmetric] by simp
    finally have "pow2 (d - 1) * of_int b \<le> of_int a" using A(1) by simp
    then show ?thesis unfolding q using rb by (simp add: pos_le_divide_eq)
  qed
  show ?thesis
  proof (cases "pow2 d \<le> q")
    case True
    then show ?thesis unfolding fl using upper by simp
  next
    case False
    then show ?thesis unfolding fl using lower by simp
  qed
qed

lemma floorLog2_unique:
  assumes "pow2 e \<le> q" "q < pow2 (e + 1)"
  shows "floorLog2 q = e"
proof -
  have qpos: "0 < q" using assms(1) pow2_pos[of e] by simp
  from floorLog2_bounds[OF qpos]
  have f: "pow2 (floorLog2 q) \<le> q" "q < pow2 (floorLog2 q + 1)" by auto
  have "\<not> floorLog2 q < e"
  proof
    assume "floorLog2 q < e"
    then have "pow2 (floorLog2 q + 1) \<le> pow2 e" by (intro pow2_mono) simp
    then show False using f(2) assms(1) by simp
  qed
  moreover have "\<not> e < floorLog2 q"
  proof
    assume "e < floorLog2 q"
    then have "pow2 (e + 1) \<le> pow2 (floorLog2 q)" by (intro pow2_mono) simp
    then show False using f(1) assms(2) by simp
  qed
  ultimately show ?thesis by simp
qed

lemma floorLog2_ge_iff:
  assumes "0 < q"
  shows "k \<le> floorLog2 q \<longleftrightarrow> pow2 k \<le> q"
proof
  assume "k \<le> floorLog2 q"
  then have "pow2 k \<le> pow2 (floorLog2 q)" by (rule pow2_mono)
  then show "pow2 k \<le> q" using floorLog2_bounds[OF assms] by simp
next
  assume h: "pow2 k \<le> q"
  show "k \<le> floorLog2 q"
  proof (rule ccontr)
    assume "\<not> k \<le> floorLog2 q"
    then have "pow2 (floorLog2 q + 1) \<le> pow2 k" by (intro pow2_mono) simp
    then show False using floorLog2_bounds[OF assms] h by simp
  qed
qed

lemma roundHalfEven_int: "roundHalfEven (of_int k) = k"
  unfolding roundHalfEven_def by (simp add: Let_def)

lemma roundDouble_int:
  assumes "\<bar>n\<bar> < 2 ^ 53"
  shows "roundDouble (of_int n) = Finite (of_int n)"
proof (cases "n = 0")
  case True
  then show ?thesis unfolding roundDouble_def by simp
next
  case False
  define m where "m = \<bar>n\<bar>"
  have m: "0 < m" "m < 2 ^ 53" using False assms unfolding m_def by auto
  have am: "\<bar>of_int n :: rat\<bar> = of_int m" unfolding m_def by simp
  define e where "e = floorLog2 (of_int m)"
  have mpos: "(0::rat) < of_int m" using m(1) by simp
  from floorLog2_bounds[OF mpos]
  have fb: "pow2 e \<le> of_int m" "of_int m < pow2 (e + 1)" unfolding e_def by auto
  have e0: "0 \<le> e"
  proof -
    have "pow2 0 \<le> (of_int m :: rat)" using m(1) by (simp add: pow2_def)
    then show ?thesis unfolding e_def using floorLog2_ge_iff[OF mpos] by simp
  qed
  have e52: "e \<le> 52"
  proof (rule ccontr)
    assume "\<not> e \<le> 52"
    then have "pow2 53 \<le> pow2 e" by (intro pow2_mono) simp
    then have "pow2 53 \<le> (of_int m :: rat)" using fb(1) by simp
    moreover have "(of_int m :: rat) < of_int (2 ^ 53)" using m(2) by (simp only: of_int_less_iff)
    ultimately show False by (simp add: pow2_def)
  qed
  have mx: "max e (- 1022) = e" using e0 by simp
  define k where "k = nat (52 - e)"
  have quantum: "pow2 (e - 52) = 1 / 2 ^ k"
    unfolding pow2_def k_def using e52 by (auto simp: nat_diff_distrib)
  have scaled: "(of_int m :: rat) / pow2 (e - 52) = of_int (m * 2 ^ k)"
    unfolding quantum by simp
  have unscaled: "of_int (m * 2 ^ k) * pow2 (e - 52) = (of_int m :: rat)"
    unfolding quantum by simp
  have small: "\<not> 1024 \<le> e" using e52 by simp
  have "roundDouble (of_int n) = Finite (if 0 < (of_int n :: rat) then of_int m else - of_int m)"
    unfolding roundDouble_def am e_def[symmetric] Let_def mx scaled roundHalfEven_int unscaled
    using False mpos small by simp
  also have "(if 0 < (of_int n :: rat) then of_int m else - of_int m) = (of_int n :: rat)"
    unfolding m_def by simp
  finally show ?thesis .
qed

lemma roundDouble_numeral:
  "(numeral k :: int) < 2 ^ 53 \<Longrightarrow> roundDouble (numeral k) = Finite (numeral k)"
  using roundDouble_int[of "numeral k"] by simp

lemma roundDouble_neg_numeral:
  "(numeral k :: int) < 2 ^ 53 \<Longrightarrow> roundDouble (- numeral k) = Finite (- numeral k)"
  using roundDouble_int[of "- numeral k"] by simp

lemma roundDouble_one: "roundDouble 1 = Finite 1" "roundDouble (- 1) = Finite (- 1)"
  using roundDouble_int[of 1] roundDouble_int[of "- 1"] by simp_all

lemma roundDouble_zero: "roundDouble 0 = Finite 0"
  unfolding roundDouble_def by simp

lemma dgt_not_NaN: "dgt a b \<Longrightarrow> a \<noteq> NaN \<and> b \<noteq> NaN"
  by (cases a; cases b) auto

lemma dgt_trans: "dgt a b \<Longrightarrow> dgt b c \<Longrightarrow> dgt a c"
  by (cases a; cases b; cases c) auto

lemma dgt_irrefl: "\<not> dgt a a"
  by (cases a) auto

lemma dgt_total: "a \<noteq> NaN \<Longrightarrow> b \<noteq> NaN \<Longrightarrow> a \<noteq> b \<Longrightarrow> dgt a b \<or> dgt b a"
  by (cases a; cases b) auto

lemma not_dgt_trans:
  assumes "\<not> dgt a m" "\<not> dgt m m'" "m \<noteq> NaN" "m' \<noteq> NaN"
  shows "\<not> dgt a m'"
proof
  assume h: "dgt a m'"
  show False
  proof (cases "m = m'")
    case True
    then show ?thesis using h assms(1) by simp
  next
    case False
    then have "dgt m' m" using dgt_total[OF assms(3,4)] assms(2) by blast
    then show ?thesis using dgt_trans[OF h] assms(1) by blast
  qed
qed

section \<open>SkewEstimator\<close>

lemma skewLoop_step:
  assumes "candidateVariance sh imageBuffer angle = Some v"
  shows "skewLoop sh imageBuffer (angle # rest) (bestAngle, maxVariance) =
           skewLoop sh imageBuffer rest
             (if dgt v maxVariance then (angle, v) else (bestAngle, maxVariance))"
  using assms unfolding candidateVariance_def bindE_def
  by (auto simp: bindE_def Let_def split: sum.splits)

lemma skewLoop_fails:
  assumes "\<exists>a\<in>set as. candidateVariance sh imageBuffer a = None"
  shows "\<exists>e. skewLoop sh imageBuffer as st = Inl e"
  using assms
proof (induction as arbitrary: st)
  case Nil
  then show ?case by simp
next
  case (Cons a as)
  obtain b m where st: "st = (b, m)" by (cases st)
  show ?case
  proof (cases "candidateVariance sh imageBuffer a")
    case None
    then show ?thesis unfolding st candidateVariance_def bindE_def
      by (auto simp: bindE_def Let_def split: sum.splits)
  next
    case (Some v)
    then have "\<exists>a\<in>set as. candidateVariance sh imageBuffer a = None" using Cons.prems by auto
    from Cons.IH[OF this] show ?thesis unfolding st skewLoop_step[OF Some] by blast
  qed
qed

lemma skewLoop_result:
  assumes "\<forall>a\<in>set as. candidateVariance sh imageBuffer a = Some (v a)" and "m \<noteq> NaN"
  shows "\<exists>b' m'. skewLoop sh imageBuffer as (b, m) = Inr (b', m')
           \<and> m' \<noteq> NaN \<and> \<not> dgt m m' \<and> (\<forall>a\<in>set as. \<not> dgt (v a) m')
           \<and> ((\<forall>a\<in>set as. \<not> dgt (v a) m) \<longrightarrow> b' = b \<and> m' = m)
           \<and> ((\<exists>a\<in>set as. dgt (v a) m) \<longrightarrow>
                 b' = hd (filter (\<lambda>a. v a = m') as) \<and> (\<exists>a\<in>set as. v a = m'))"
  using assms
proof (induction as arbitrary: b m)
  case Nil
  then show ?case by (simp add: dgt_irrefl)
next
  case (Cons a as)
  have ca: "candidateVariance sh imageBuffer a = Some (v a)" using Cons.prems by simp
  have rest: "\<forall>a\<in>set as. candidateVariance sh imageBuffer a = Some (v a)" using Cons.prems by simp
  have mN: "m \<noteq> NaN" using Cons.prems by simp
  show ?case
  proof (cases "dgt (v a) m")
    case True
    have vN: "v a \<noteq> NaN" using dgt_not_NaN[OF True] by simp
    from Cons.IH[OF rest vN, of a] obtain b' m' where
      r: "skewLoop sh imageBuffer as (a, v a) = Inr (b', m')" "m' \<noteq> NaN" "\<not> dgt (v a) m'"
         "\<forall>x\<in>set as. \<not> dgt (v x) m'"
         "(\<forall>x\<in>set as. \<not> dgt (v x) (v a)) \<longrightarrow> b' = a \<and> m' = v a"
         "(\<exists>x\<in>set as. dgt (v x) (v a)) \<longrightarrow> b' = hd (filter (\<lambda>x. v x = m') as) \<and> (\<exists>x\<in>set as. v x = m')"
      by blast
    have run: "skewLoop sh imageBuffer (a # as) (b, m) = Inr (b', m')"
      unfolding skewLoop_step[OF ca] using r(1) True by simp
    have ge: "\<not> dgt m m'"
    proof
      assume "dgt m m'"
      then have "dgt (v a) m'" using dgt_trans[OF True] by blast
      then show False using r(3) by simp
    qed
    have hd: "b' = hd (filter (\<lambda>x. v x = m') (a # as)) \<and> (\<exists>x\<in>set (a # as). v x = m')"
    proof (cases "\<exists>x\<in>set as. dgt (v x) (v a)")
      case True
      then obtain x where x: "x \<in> set as" "dgt (v x) (v a)" by blast
      have "b' = hd (filter (\<lambda>x. v x = m') as)" "\<exists>x\<in>set as. v x = m'" using True r(6) by auto
      moreover have "v a \<noteq> m'" using x r(4) by auto
      ultimately show ?thesis by auto
    next
      case False
      then have "b' = a" "m' = v a" using r(5) by auto
      then show ?thesis by simp
    qed
    have all: "\<forall>x\<in>set (a # as). \<not> dgt (v x) m'" using r(3,4) by simp
    have none: "\<not> (\<forall>x\<in>set (a # as). \<not> dgt (v x) m)" using True by simp
    show ?thesis using run r(2) ge all none hd by blast
  next
    case False
    from Cons.IH[OF rest mN, of b] obtain b' m' where
      r: "skewLoop sh imageBuffer as (b, m) = Inr (b', m')" "m' \<noteq> NaN" "\<not> dgt m m'"
         "\<forall>x\<in>set as. \<not> dgt (v x) m'"
         "(\<forall>x\<in>set as. \<not> dgt (v x) m) \<longrightarrow> b' = b \<and> m' = m"
         "(\<exists>x\<in>set as. dgt (v x) m) \<longrightarrow> b' = hd (filter (\<lambda>x. v x = m') as) \<and> (\<exists>x\<in>set as. v x = m')"
      by blast
    have run: "skewLoop sh imageBuffer (a # as) (b, m) = Inr (b', m')"
      unfolding skewLoop_step[OF ca] using r(1) False by simp
    have am': "\<not> dgt (v a) m'" by (rule not_dgt_trans[OF False r(3) mN r(2)])
    have all: "\<forall>x\<in>set (a # as). \<not> dgt (v x) m'" using r(4) am' by simp
    have same: "(\<forall>x\<in>set (a # as). \<not> dgt (v x) m) \<longrightarrow> b' = b \<and> m' = m" using r(5) by simp
    have hd: "b' = hd (filter (\<lambda>x. v x = m') (a # as)) \<and> (\<exists>x\<in>set (a # as). v x = m')"
      if "\<exists>x\<in>set (a # as). dgt (v x) m"
    proof -
      from that False obtain x where x: "x \<in> set as" "dgt (v x) m" by auto
      then have "b' = hd (filter (\<lambda>x. v x = m') as)" "\<exists>x\<in>set as. v x = m'" using r(6) by auto
      moreover have "v a \<noteq> m'"
      proof
        assume e: "v a = m'"
        have nx: "\<not> dgt (v x) (v a)" using r(4) x(1) e by simp
        have xN: "v x \<noteq> NaN" using dgt_not_NaN[OF x(2)] by simp
        have aN: "v a \<noteq> NaN" using e r(2) by simp
        show False
        proof (cases "v x = v a")
          case True
          then show ?thesis using x(2) False by simp
        next
          case False
          then have "dgt (v a) (v x)" using dgt_total[OF xN aN] nx by blast
          then have "dgt (v a) m" using dgt_trans x(2) by blast
          then show ?thesis using \<open>\<not> dgt (v a) m\<close> by simp
        qed
      qed
      ultimately show ?thesis by auto
    qed
    show ?thesis using run r(2,3) all same hd by blast
  qed
qed

lemma firstMaximiser_eq:
  assumes "\<forall>a\<in>set as. \<not> dgt (v a) m" "m \<noteq> NaN" "\<exists>a\<in>set as. v a = m"
  shows "firstMaximiser v as = hd (filter (\<lambda>a. v a = m) as)"
proof -
  from assms(3) obtain a0 where a0: "a0 \<in> set as" "v a0 = m" by blast
  have "(v a \<noteq> NaN \<and> (\<forall>b\<in>set as. \<not> dgt (v b) (v a))) \<longleftrightarrow> v a = m" if a: "a \<in> set as" for a
  proof
    assume h: "v a \<noteq> NaN \<and> (\<forall>b\<in>set as. \<not> dgt (v b) (v a))"
    then have "\<not> dgt m (v a)" using a0 by auto
    moreover have "\<not> dgt (v a) m" using assms(1) a by simp
    ultimately show "v a = m" using dgt_total[of "v a" m] h assms(2) by blast
  next
    assume "v a = m"
    then show "v a \<noteq> NaN \<and> (\<forall>b\<in>set as. \<not> dgt (v b) (v a))" using assms(1,2) by simp
  qed
  then have "filter (\<lambda>a. v a \<noteq> NaN \<and> (\<forall>b\<in>set as. \<not> dgt (v b) (v a))) as = filter (\<lambda>a. v a = m) as"
    by (intro filter_cong) auto
  then show ?thesis unfolding firstMaximiser_def by simp
qed

lemma estimateSkewAngle_all_succeed:
  assumes raw: "sharpRaw sh imageBuffer = Inr img"
    and ok: "\<forall>a\<in>set testAngles. candidateVariance sh imageBuffer a \<noteq> None"
  shows "estimateSkewAngle sh imageBuffer =
           (if \<exists>a\<in>set testAngles. dgt (varianceOf sh imageBuffer a) (Finite 0)
            then firstMaximiser (varianceOf sh imageBuffer) testAngles else 0)"
proof -
  let ?v = "varianceOf sh imageBuffer"
  have all: "\<forall>a\<in>set testAngles. candidateVariance sh imageBuffer a = Some (?v a)"
    using ok unfolding varianceOf_def by (auto split: option.splits)
  have z: "Finite 0 \<noteq> NaN" by simp
  from skewLoop_result[OF all z, of 0] obtain b' m' where
    r: "skewLoop sh imageBuffer testAngles (0, Finite 0) = Inr (b', m')" "m' \<noteq> NaN"
       "\<forall>a\<in>set testAngles. \<not> dgt (?v a) m'"
       "(\<forall>a\<in>set testAngles. \<not> dgt (?v a) (Finite 0)) \<longrightarrow> b' = 0 \<and> m' = Finite 0"
       "(\<exists>a\<in>set testAngles. dgt (?v a) (Finite 0)) \<longrightarrow>
          b' = hd (filter (\<lambda>a. ?v a = m') testAngles) \<and> (\<exists>a\<in>set testAngles. ?v a = m')"
    by blast
  have est: "estimateSkewAngle sh imageBuffer = b'"
    unfolding estimateSkewAngle_def bindE_def using raw r(1) by simp
  show ?thesis
  proof (cases "\<exists>a\<in>set testAngles. dgt (?v a) (Finite 0)")
    case True
    then have "b' = hd (filter (\<lambda>a. ?v a = m') testAngles)" "\<exists>a\<in>set testAngles. ?v a = m'"
      using r(5) by auto
    then have "b' = firstMaximiser ?v testAngles"
      using firstMaximiser_eq[OF r(3) r(2)] by simp
    then show ?thesis using est True by simp
  next
    case False
    then have "b' = 0" using r(4) by blast
    then show ?thesis using est False by simp
  qed
qed

lemma estimateSkewAngle_failure:
  assumes "(\<exists>e. sharpRaw sh imageBuffer = Inl e) \<or>
           (\<exists>a\<in>set testAngles. candidateVariance sh imageBuffer a = None)"
  shows "estimateSkewAngle sh imageBuffer = 0"
proof (cases "sharpRaw sh imageBuffer")
  case (Inl e)
  then show ?thesis unfolding estimateSkewAngle_def bindE_def by simp
next
  case (Inr img)
  then have "\<exists>a\<in>set testAngles. candidateVariance sh imageBuffer a = None" using assms by auto
  from skewLoop_fails[OF this, of "(0, Finite 0)"] obtain e where
    "skewLoop sh imageBuffer testAngles (0, Finite 0) = Inl e" by blast
  then show ?thesis unfolding estimateSkewAngle_def bindE_def using Inr by simp
qed

lemma rowVariance_whitePixel: "rowVariance (rowSums whitePixel) = Finite 0"
  by (simp add: rowVariance_def rowSums_def darkRowCount_def whitePixel_def pixelIndex_def
      readByte_def lessThan128_def numberOfNat_def dsub_def dsquare_def
      roundDouble_zero roundDouble_one)

lemma rowVariance_stripes: "rowVariance (rowSums stripes) = Finite 1"
  by (simp add: rowVariance_def rowSums_def darkRowCount_def stripes_def pixelIndex_def
      readByte_def lessThan128_def upt_rec numberOfNat_def dsub_def dsquare_def
      roundDouble_zero roundDouble_one roundDouble_numeral roundDouble_neg_numeral)

lemma rowVariance_smeared: "rowVariance (rowSums smeared) = Finite 0"
  by (simp add: rowVariance_def rowSums_def darkRowCount_def smeared_def pixelIndex_def
      readByte_def lessThan128_def upt_rec numberOfNat_def dsub_def dsquare_def
      roundDouble_zero roundDouble_one roundDouble_numeral roundDouble_neg_numeral)

text \<open>
  The estimator on two candidates of equal exact variance \<open>14/9\<close>: the variances computed for
  the rows 0, 3, 1 and 0, 1, 3 are the doubles 1.5555555555555554 and 1.5555555555555556, and
  the second candidate, \<open>-4\<close>, is returned.
\<close>

lemma rowVariance_rows031:
  "rowVariance [Finite 0, Finite 3, Finite 1] = Finite (875699927544263 / 562949953421312)"
  by code_simp

lemma rowVariance_rows013:
  "rowVariance [Finite 0, Finite 1, Finite 3] = Finite (7005599420354105 / 4503599627370496)"
  by code_simp

lemma rowVariance_depends_on_order:
  "dgt (rowVariance [Finite 0, Finite 1, Finite 3]) (rowVariance [Finite 0, Finite 3, Finite 1])"
  by (simp add: rowVariance_rows031 rowVariance_rows013)

lemma rowSums_rows031: "rowSums rows031 = [Finite 0, Finite 3, Finite 1]"
  by (simp add: rowSums_def darkRowCount_def rows031_def pixelIndex_def
      readByte_def lessThan128_def upt_rec roundDouble_zero roundDouble_one roundDouble_numeral)

lemma rowSums_rows013: "rowSums rows013 = [Finite 0, Finite 1, Finite 3]"
  by (simp add: rowSums_def darkRowCount_def rows013_def pixelIndex_def
      readByte_def lessThan128_def upt_rec roundDouble_zero roundDouble_one roundDouble_numeral)

lemma estimateSkewAngle_rounding_example:
  "varianceOf tiedSharp [] (- 5) = Finite (875699927544263 / 562949953421312)
   \<and> varianceOf tiedSharp [] (- 4) = Finite (7005599420354105 / 4503599627370496)
   \<and> estimateSkewAngle tiedSharp [] = - 4"
proof -
  have c: "candidateVariance tiedSharp [] a =
             Some (if a = - 5 then Finite (875699927544263 / 562949953421312)
                   else if a = - 4 then Finite (7005599420354105 / 4503599627370496)
                   else Finite 0)" for a
    unfolding candidateVariance_def bindE_def
    by (simp add: tiedSharp_def rowSums_rows031 rowSums_rows013 rowVariance_rows031
        rowVariance_rows013 rowVariance_whitePixel)
  have vo: "varianceOf tiedSharp [] =
              (\<lambda>a. if a = - 5 then Finite (875699927544263 / 562949953421312)
                   else if a = - 4 then Finite (7005599420354105 / 4503599627370496)
                   else Finite 0)"
    unfolding varianceOf_def by (simp add: c)
  have raw: "sharpRaw tiedSharp [] = Inr whitePixel" by (simp add: tiedSharp_def)
  have ok: "\<forall>a\<in>set testAngles. candidateVariance tiedSharp [] a \<noteq> None" by (simp add: c)
  have pos: "\<exists>a\<in>set testAngles. dgt (varianceOf tiedSharp [] a) (Finite 0)"
    unfolding vo by (simp add: testAngles_def)
  have fm: "firstMaximiser (varianceOf tiedSharp []) testAngles = - 4"
    unfolding vo firstMaximiser_def by (simp add: testAngles_def)
  have "estimateSkewAngle tiedSharp [] = - 4"
    using estimateSkewAngle_all_succeed[OF raw ok] pos fm by simp
  then show ?thesis unfolding vo by simp
qed

text \<open>
  C5, as stated, fails on a blank page: every candidate has variance 0, the first candidate in
  ascending order is \<open>-5\<close>, and the estimator returns 0, the initial \<open>bestAngle\<close>, because a
  candidate replaces it only when its variance is greater than the initial maximum 0.
\<close>

theorem estimateSkewAngle_blank_counterexample:
  "set (map (candidateVariance blankSharp []) testAngles) = {Some (Finite 0)}
   \<and> firstMaximiser (varianceOf blankSharp []) testAngles = - 5
   \<and> estimateSkewAngle blankSharp [] = 0"
proof -
  have c: "candidateVariance blankSharp [] a = Some (Finite 0)" for a
    unfolding candidateVariance_def bindE_def by (simp add: blankSharp_def rowVariance_whitePixel)
  have 1: "set (map (candidateVariance blankSharp []) testAngles) = {Some (Finite 0)}"
    by (simp add: testAngles_def c)
  have vo: "varianceOf blankSharp [] = (\<lambda>a. Finite 0)" unfolding varianceOf_def by (simp add: c)
  have 2: "firstMaximiser (varianceOf blankSharp []) testAngles = - 5"
    unfolding vo firstMaximiser_def by (simp add: testAngles_def)
  have "estimateSkewAngle blankSharp [] =
          (if \<exists>a\<in>set testAngles. dgt (varianceOf blankSharp [] a) (Finite 0)
           then firstMaximiser (varianceOf blankSharp []) testAngles else 0)"
    by (rule estimateSkewAngle_all_succeed[of _ _ whitePixel]) (simp_all add: c, simp add: blankSharp_def)
  then have 3: "estimateSkewAngle blankSharp [] = 0" unfolding vo by simp
  show ?thesis using 1 2 3 by simp
qed

text \<open>
  C5, amended. The variance of a candidate is the one the source computes, in double
  precision, from the per-row counts of dark pixels (first channel below 128) of the image
  rotated over a white background. When the decoding of the input and the rotation and
  decoding of every candidate succeed, \<open>estimateSkewAngle\<close> returns, if the variance of some
  candidate is greater than 0, the candidate of \<open>[-5, 5]\<close> of maximal computed variance, the
  first one in ascending order among those that reach the maximum; if no candidate has a
  variance greater than 0 (on a blank page all are 0) it returns 0. When the decoding of the
  input or any candidate fails, it returns 0.
\<close>

theorem estimateSkewAngle_first_maximiser_or_zero:
  "((\<exists>img. sharpRaw sh imageBuffer = Inr img) \<and>
    (\<forall>a\<in>set testAngles. candidateVariance sh imageBuffer a \<noteq> None) \<longrightarrow>
      estimateSkewAngle sh imageBuffer =
        (if \<exists>a\<in>set testAngles. dgt (varianceOf sh imageBuffer a) (Finite 0)
         then firstMaximiser (varianceOf sh imageBuffer) testAngles else 0))
   \<and> ((\<exists>e. sharpRaw sh imageBuffer = Inl e) \<or>
       (\<exists>a\<in>set testAngles. candidateVariance sh imageBuffer a = None) \<longrightarrow>
      estimateSkewAngle sh imageBuffer = 0)"
  using estimateSkewAngle_all_succeed[of sh imageBuffer] estimateSkewAngle_failure[of sh imageBuffer]
  by blast

theorem estimateSkewAngle_first_maximiser_or_zero_witness:
  "sharpRaw skewedSharp [] = Inr smeared
   \<and> set (map (varianceOf skewedSharp []) testAngles) = {Finite 0, Finite 1}
   \<and> varianceOf skewedSharp [] 2 = Finite 1
   \<and> estimateSkewAngle skewedSharp [] = 2
   \<and> sharpRaw (stubSharp inkDot) [] = Inr inkDot
   \<and> candidateVariance (stubSharp inkDot) [] 0 = None
   \<and> estimateSkewAngle (stubSharp inkDot) [] = 0"
proof -
  have raw: "sharpRaw skewedSharp [] = Inr smeared" by (simp add: skewedSharp_def)
  have c: "candidateVariance skewedSharp [] a = Some (if a = 2 then Finite 1 else Finite 0)" for a
    unfolding candidateVariance_def bindE_def
    by (simp add: skewedSharp_def rowVariance_stripes rowVariance_smeared)
  have vo: "varianceOf skewedSharp [] = (\<lambda>a. if a = 2 then Finite 1 else Finite 0)"
    unfolding varianceOf_def by (simp add: c)
  have ok: "\<forall>a\<in>set testAngles. candidateVariance skewedSharp [] a \<noteq> None" by (simp add: c)
  have pos: "\<exists>a\<in>set testAngles. dgt (varianceOf skewedSharp [] a) (Finite 0)"
    unfolding vo by (simp add: testAngles_def)
  have fm: "firstMaximiser (varianceOf skewedSharp []) testAngles = 2"
    unfolding vo firstMaximiser_def by (simp add: testAngles_def)
  have vset: "set (map (varianceOf skewedSharp []) testAngles) = {Finite 0, Finite 1}"
    unfolding vo by (auto simp: testAngles_def)
  have raw2: "sharpRaw (stubSharp inkDot) [] = Inr inkDot" by (simp add: stubSharp_def)
  have none: "candidateVariance (stubSharp inkDot) [] 0 = None"
    unfolding candidateVariance_def bindE_def by (simp add: stubSharp_def failing_def)
  have mem: "(0::int) \<in> set testAngles" by (simp add: testAngles_def)
  have "estimateSkewAngle skewedSharp [] = 2"
    using estimateSkewAngle_first_maximiser_or_zero[of skewedSharp "[]"] raw ok pos fm by simp
  moreover have "estimateSkewAngle (stubSharp inkDot) [] = 0"
    using estimateSkewAngle_first_maximiser_or_zero[of "stubSharp inkDot" "[]"] none mem by blast
  ultimately show ?thesis using raw vset raw2 none by (simp add: vo)
qed

section \<open>DocumentMerger: the chunking loop\<close>

lemma lastIndexBelow_cases:
  "(lastIndexBelow s ch n = - 1 \<and> (\<forall>i<n. s ! i \<noteq> ch)) \<or>
   (0 \<le> lastIndexBelow s ch n \<and> nat (lastIndexBelow s ch n) < n \<and>
    s ! nat (lastIndexBelow s ch n) = ch \<and>
    (\<forall>i. nat (lastIndexBelow s ch n) < i \<and> i < n \<longrightarrow> s ! i \<noteq> ch))"
proof (induction n)
  case 0
  then show ?case by simp
next
  case (Suc n)
  show ?case
  proof (cases "s ! n = ch")
    case True
    then show ?thesis by auto
  next
    case False
    have step: "lastIndexBelow s ch (Suc n) = lastIndexBelow s ch n" using False by simp
    from Suc.IH show ?thesis
    proof (elim disjE)
      assume "lastIndexBelow s ch n = - 1 \<and> (\<forall>i<n. s ! i \<noteq> ch)"
      then show ?thesis using False unfolding step by (auto simp: less_Suc_eq)
    next
      assume "0 \<le> lastIndexBelow s ch n \<and> nat (lastIndexBelow s ch n) < n \<and>
        s ! nat (lastIndexBelow s ch n) = ch \<and>
        (\<forall>i. nat (lastIndexBelow s ch n) < i \<and> i < n \<longrightarrow> s ! i \<noteq> ch)"
      then show ?thesis using False unfolding step by (auto simp: less_Suc_eq)
    qed
  qed
qed

lemma lastIndexBelow_found:
  assumes "r < n" "s ! r = ch" "\<forall>i. r < i \<and> i < n \<longrightarrow> s ! i \<noteq> ch"
  shows "lastIndexBelow s ch n = int r"
  using lastIndexBelow_cases[of s ch n] assms
  by (metis int_nat_eq linorder_neqE_nat)

lemma lastIndexBelow_none:
  assumes "\<forall>i<n. s ! i \<noteq> ch"
  shows "lastIndexBelow s ch n = - 1"
  using lastIndexBelow_cases[of s ch n] assms by blast

lemma lastIndexBelow_hit:
  assumes "j < n" "s ! j = ch"
  shows "int j \<le> lastIndexBelow s ch n \<and> nat (lastIndexBelow s ch n) < n \<and>
         s ! nat (lastIndexBelow s ch n) = ch"
  using lastIndexBelow_cases[of s ch n] assms
  by (metis int_nat_eq linorder_not_less nat_int of_nat_0_le_iff order.strict_trans2 zle_int)


lemma lastIndexBelow_range: "- 1 \<le> lastIndexBelow s ch n \<and> lastIndexBelow s ch n < int n"
  using lastIndexBelow_cases[of s ch n] by auto

lemma chunkEnd_bounds:
  assumes "currentPos < length rawText"
  shows "currentPos < chunkEnd rawText currentPos \<and> chunkEnd rawText currentPos \<le> length rawText"
proof -
  define endPos where "endPos = min (currentPos + MAX_CHARS_PER_CHUNK) (length rawText)"
  define breakPoint where
    "breakPoint = max (lastIndexOf rawText PERIOD endPos) (lastIndexOf rawText NEWLINE endPos)"
  have e: "currentPos < endPos" "endPos \<le> length rawText"
    using assms unfolding endPos_def MAX_CHARS_PER_CHUNK_def by auto
  have b: "breakPoint < int (length rawText)"
    unfolding breakPoint_def lastIndexOf_def
    using lastIndexBelow_range[of rawText PERIOD "min (endPos + 1) (length rawText)"]
      lastIndexBelow_range[of rawText NEWLINE "min (endPos + 1) (length rawText)"]
    by auto
  have c: "chunkEnd rawText currentPos =
             (if endPos < length rawText \<and> breakPoint > int currentPos + int MAX_CHARS_PER_CHUNK div 2
              then nat (breakPoint + 1) else endPos)"
    unfolding chunkEnd_def Let_def endPos_def[symmetric] breakPoint_def[symmetric] by simp
  show ?thesis unfolding c using e b by auto
qed

lemma chunkEnd_at_break:
  assumes far: "currentPos + MAX_CHARS_PER_CHUNK < length rawText"
    and j: "currentPos + MAX_CHARS_PER_CHUNK div 2 < j" "j \<le> currentPos + MAX_CHARS_PER_CHUNK"
    and brk: "rawText ! j = PERIOD \<or> rawText ! j = NEWLINE"
  shows "j < chunkEnd rawText currentPos \<and>
         (rawText ! (chunkEnd rawText currentPos - 1) = PERIOD \<or>
          rawText ! (chunkEnd rawText currentPos - 1) = NEWLINE)"
proof -
  define endPos where "endPos = min (currentPos + MAX_CHARS_PER_CHUNK) (length rawText)"
  define n where "n = min (endPos + 1) (length rawText)"
  define lp where "lp = lastIndexBelow rawText PERIOD n"
  define ln where "ln = lastIndexBelow rawText NEWLINE n"
  have e: "endPos = currentPos + MAX_CHARS_PER_CHUNK" "endPos < length rawText"
    using far unfolding endPos_def by auto
  have n: "n = endPos + 1" using e unfolding n_def by simp
  have jn: "j < n" using j(2) e n by simp
  have c: "chunkEnd rawText currentPos =
             (if max lp ln > int currentPos + int MAX_CHARS_PER_CHUNK div 2
              then nat (max lp ln + 1) else endPos)"
    unfolding chunkEnd_def Let_def endPos_def[symmetric] lastIndexOf_def n_def[symmetric]
      lp_def ln_def using e by simp
  have hit: "int j \<le> max lp ln"
  proof (cases "rawText ! j = PERIOD")
    case True
    from lastIndexBelow_hit[OF jn True] show ?thesis unfolding lp_def by linarith
  next
    case False
    then have "rawText ! j = NEWLINE" using brk by simp
    from lastIndexBelow_hit[OF jn this] show ?thesis unfolding ln_def by linarith
  qed
  have "int currentPos + int MAX_CHARS_PER_CHUNK div 2 < int j"
    using j(1) by (simp add: MAX_CHARS_PER_CHUNK_def)
  then have adj: "chunkEnd rawText currentPos = nat (max lp ln + 1)" using hit c by simp
  have pos: "0 \<le> max lp ln" using hit by simp
  have last: "nat (max lp ln + 1) - 1 = nat (max lp ln)" using pos by simp
  have "rawText ! nat (max lp ln) = PERIOD \<or> rawText ! nat (max lp ln) = NEWLINE"
  proof (cases "ln \<le> lp")
    case True
    then have m: "max lp ln = lp" by simp
    have "0 \<le> lp" using pos m by simp
    then have "rawText ! nat lp = PERIOD"
      using lastIndexBelow_cases[of rawText PERIOD n] unfolding lp_def by auto
    then show ?thesis using m by simp
  next
    case False
    then have m: "max lp ln = ln" by simp
    have "0 \<le> ln" using pos m by simp
    then have "rawText ! nat ln = NEWLINE"
      using lastIndexBelow_cases[of rawText NEWLINE n] unfolding ln_def by auto
    then show ?thesis using m by simp
  qed
  moreover have "j < nat (max lp ln + 1)" using hit by simp
  ultimately show ?thesis unfolding adj last by simp
qed

lemma chunkLoop_acc: "chunkLoop rawText currentPos chunks = chunks @ chunkLoop rawText currentPos []"
proof (induction "length rawText - currentPos" arbitrary: currentPos chunks rule: less_induct)
  case less
  show ?case
  proof (cases "currentPos < length rawText")
    case True
    define e where "e = chunkEnd rawText currentPos"
    define c where "c = slice rawText currentPos e"
    have dec: "length rawText - e < length rawText - currentPos"
      using chunkEnd_bounds[OF True] True unfolding e_def by arith
    have 1: "chunkLoop rawText currentPos chunks = chunkLoop rawText e (chunks @ [c])"
      using True unfolding e_def c_def by (subst chunkLoop.simps) simp
    have 2: "chunkLoop rawText currentPos [] = chunkLoop rawText e ([] @ [c])"
      using True unfolding e_def c_def by (subst chunkLoop.simps) simp
    have 3: "chunkLoop rawText e (chunks @ [c]) = (chunks @ [c]) @ chunkLoop rawText e []"
      by (rule less[OF dec])
    have 4: "chunkLoop rawText e ([] @ [c]) = ([] @ [c]) @ chunkLoop rawText e []"
      by (rule less[OF dec])
    show ?thesis unfolding 1 2 3 4 by simp
  next
    case False
    then show ?thesis by (subst chunkLoop.simps, subst (2) chunkLoop.simps) simp
  qed
qed

lemma chunkLoop_unfold:
  "chunkLoop rawText currentPos [] =
     (if currentPos < length rawText
      then slice rawText currentPos (chunkEnd rawText currentPos) #
           chunkLoop rawText (chunkEnd rawText currentPos) []
      else [])"
proof (cases "currentPos < length rawText")
  case True
  have "chunkLoop rawText currentPos [] =
          chunkLoop rawText (chunkEnd rawText currentPos)
            [slice rawText currentPos (chunkEnd rawText currentPos)]"
    using True by (subst chunkLoop.simps) simp
  also have "\<dots> = [slice rawText currentPos (chunkEnd rawText currentPos)] @
                   chunkLoop rawText (chunkEnd rawText currentPos) []"
    by (rule chunkLoop_acc)
  finally show ?thesis using True by simp
next
  case False
  then show ?thesis by (subst chunkLoop.simps) simp
qed

lemma slice_length:
  assumes "a \<le> b" "b \<le> length s"
  shows "length (slice s a b) = b - a"
  using assms unfolding slice_def by simp

lemma slice_then_drop:
  assumes "a \<le> b"
  shows "slice s a b @ drop b s = drop a s"
proof -
  have "drop b s = drop (b - a) (drop a s)" using assms by simp
  then show ?thesis unfolding slice_def by (metis append_take_drop_id)
qed

lemma concat_chunkLoop:
  "concat (chunkLoop rawText currentPos []) = drop currentPos rawText"
proof (induction "length rawText - currentPos" arbitrary: currentPos rule: less_induct)
  case less
  show ?case
  proof (cases "currentPos < length rawText")
    case True
    define e where "e = chunkEnd rawText currentPos"
    have b: "currentPos < e" "e \<le> length rawText"
      using chunkEnd_bounds[OF True] unfolding e_def by auto
    have dec: "length rawText - e < length rawText - currentPos" using b True by arith
    have "concat (chunkLoop rawText currentPos []) =
            slice rawText currentPos e @ concat (chunkLoop rawText e [])"
      using True unfolding e_def by (subst chunkLoop_unfold) simp
    also have "\<dots> = slice rawText currentPos e @ drop e rawText"
      using less[OF dec] by simp
    also have "\<dots> = drop currentPos rawText"
      using b(1) by (intro slice_then_drop) simp
    finally show ?thesis .
  next
    case False
    then show ?thesis by (subst chunkLoop_unfold) simp
  qed
qed

lemma chunkLoop_nth:
  assumes "i < length (chunkLoop rawText currentPos [])"
  shows "currentPos + length (concat (take i (chunkLoop rawText currentPos []))) < length rawText
       \<and> chunkLoop rawText currentPos [] ! i =
           slice rawText (currentPos + length (concat (take i (chunkLoop rawText currentPos []))))
             (chunkEnd rawText (currentPos + length (concat (take i (chunkLoop rawText currentPos [])))))
       \<and> (Suc i < length (chunkLoop rawText currentPos []) \<longrightarrow>
            chunkEnd rawText (currentPos + length (concat (take i (chunkLoop rawText currentPos []))))
              < length rawText)"
  using assms
proof (induction "length rawText - currentPos" arbitrary: currentPos i rule: less_induct)
  case less
  have lt: "currentPos < length rawText"
  proof (rule ccontr)
    assume "\<not> currentPos < length rawText"
    then have "chunkLoop rawText currentPos [] = []" by (subst chunkLoop_unfold) simp
    then show False using less.prems by simp
  qed
  define e where "e = chunkEnd rawText currentPos"
  define c where "c = slice rawText currentPos e"
  define rest where "rest = chunkLoop rawText e []"
  have b: "currentPos < e" "e \<le> length rawText"
    using chunkEnd_bounds[OF lt] unfolding e_def by auto
  have dec: "length rawText - e < length rawText - currentPos" using b lt by arith
  have u: "chunkLoop rawText currentPos [] = c # rest"
    using lt unfolding e_def c_def rest_def by (subst chunkLoop_unfold) simp
  have lc: "length c = e - currentPos"
    unfolding c_def using b by (intro slice_length) simp_all
  show ?case
  proof (cases i)
    case 0
    have "Suc 0 < length (c # rest) \<longrightarrow> e < length rawText"
    proof
      assume "Suc 0 < length (c # rest)"
      then have "rest \<noteq> []" by auto
      then show "e < length rawText"
        unfolding rest_def by (subst (asm) chunkLoop_unfold) (simp split: if_splits)
    qed
    then show ?thesis unfolding u 0 using lt by (simp add: c_def e_def)
  next
    case (Suc k)
    have k: "k < length (chunkLoop rawText e [])"
      using less.prems unfolding u Suc rest_def by simp
    have pos: "currentPos + length (concat (take (Suc k) (c # rest)))
               = e + length (concat (take k rest))"
      using lc b by simp
    from less.hyps[OF dec k]
    show ?thesis unfolding u Suc pos unfolding rest_def[symmetric] by simp
  qed
qed


lemma chunkEnd_internal:
  assumes "chunkEnd rawText currentPos < length rawText"
  shows "currentPos + MAX_CHARS_PER_CHUNK < length rawText"
proof (rule ccontr)
  assume "\<not> currentPos + MAX_CHARS_PER_CHUNK < length rawText"
  then have "min (currentPos + MAX_CHARS_PER_CHUNK) (length rawText) = length rawText" by simp
  then have "chunkEnd rawText currentPos = length rawText"
    unfolding chunkEnd_def by (simp add: Let_def)
  then show False using assms by simp
qed

lemma slice_last:
  assumes "a < b" "b \<le> length s"
  shows "slice s a b \<noteq> [] \<and> last (slice s a b) = s ! (b - 1)"
proof -
  have l: "length (slice s a b) = b - a" using assms by (intro slice_length) simp_all
  then have ne: "slice s a b \<noteq> []" using assms(1) by auto
  have "last (slice s a b) = slice s a b ! (b - a - 1)" using ne l by (simp add: last_conv_nth)
  also have "\<dots> = drop a s ! (b - a - 1)" unfolding slice_def using assms by simp
  also have "\<dots> = s ! (a + (b - a - 1))" using assms by simp
  also have "a + (b - a - 1) = b - 1" using assms by simp
  finally show ?thesis using ne by simp
qed

lemma smartMerge_raw_chunks:
  assumes key: "apiKey g" and long: "MAX_CHARS_PER_CHUNK < length rawText"
    and fails: "\<forall>chunk isFirst isLast. \<exists>e. complete g (CleanRequest chunk isFirst isLast) = Inl e"
  shows "smartMergeMultiPagePDF g rawText numPages = joinWith [NEWLINE, NEWLINE] (splitIntoChunks rawText)"
proof -
  have c: "(case cleanPDFChunk g chunk isFirst isLast of Inr processed \<Rightarrow> processed | Inl err \<Rightarrow> chunk) = chunk"
    for chunk isFirst isLast
    using fails[rule_format, of chunk isFirst isLast] unfolding cleanPDFChunk_def bindE_def by auto
  have ne: "rawText \<noteq> []" "\<not> length rawText < 50" "\<not> length rawText \<le> MAX_CHARS_PER_CHUNK"
    using long unfolding MAX_CHARS_PER_CHUNK_def by auto
  show ?thesis
    unfolding smartMergeMultiPagePDF_def Let_def using key ne by (simp add: c map_nth)
qed

text \<open>
  C2. For every text longer than the chunk threshold of 6000 code units, the chunks of the
  document merger concatenate, in order, to exactly the text. Every internal chunk boundary
  falls on a break: when a full stop or a line feed occurs at a position past the midpoint of
  the chunk (more than 3000 after its start) and at most 6000 after its start, the chunk is
  not empty and ends with a full stop or a line feed. When every correction call fails, the
  merger returns these chunks joined by blank lines.
\<close>

theorem splitIntoChunks_partitions_at_breaks:
  assumes long: "MAX_CHARS_PER_CHUNK < length rawText"
  shows "concat (splitIntoChunks rawText) = rawText
       \<and> (\<forall>i. Suc i < length (splitIntoChunks rawText) \<longrightarrow>
            (\<exists>j. length (concat (take i (splitIntoChunks rawText))) + MAX_CHARS_PER_CHUNK div 2 < j \<and>
                 j \<le> length (concat (take i (splitIntoChunks rawText))) + MAX_CHARS_PER_CHUNK \<and>
                 (rawText ! j = PERIOD \<or> rawText ! j = NEWLINE)) \<longrightarrow>
            splitIntoChunks rawText ! i \<noteq> [] \<and>
            (last (splitIntoChunks rawText ! i) = PERIOD \<or>
             last (splitIntoChunks rawText ! i) = NEWLINE))
       \<and> (apiKey g \<and> (\<forall>chunk isFirst isLast. \<exists>e. complete g (CleanRequest chunk isFirst isLast) = Inl e)
            \<longrightarrow> smartMergeMultiPagePDF g rawText numPages
                 = joinWith [NEWLINE, NEWLINE] (splitIntoChunks rawText))"
proof -
  have 1: "concat (splitIntoChunks rawText) = rawText"
    unfolding splitIntoChunks_def using concat_chunkLoop[of rawText 0] by simp
  have 2: "splitIntoChunks rawText ! i \<noteq> [] \<and>
        (last (splitIntoChunks rawText ! i) = PERIOD \<or> last (splitIntoChunks rawText ! i) = NEWLINE)"
    if i: "Suc i < length (splitIntoChunks rawText)"
      and ex: "\<exists>j. length (concat (take i (splitIntoChunks rawText))) + MAX_CHARS_PER_CHUNK div 2 < j \<and>
                 j \<le> length (concat (take i (splitIntoChunks rawText))) + MAX_CHARS_PER_CHUNK \<and>
                 (rawText ! j = PERIOD \<or> rawText ! j = NEWLINE)"
    for i
  proof -
    define p where "p = length (concat (take i (splitIntoChunks rawText)))"
    have i': "i < length (chunkLoop rawText 0 [])" using i unfolding splitIntoChunks_def by simp
    from chunkLoop_nth[OF i'] i
    have p: "p < length rawText"
      and ch: "splitIntoChunks rawText ! i = slice rawText p (chunkEnd rawText p)"
      and internal: "chunkEnd rawText p < length rawText"
      unfolding p_def splitIntoChunks_def by simp_all
    from ex obtain j where j: "p + MAX_CHARS_PER_CHUNK div 2 < j" "j \<le> p + MAX_CHARS_PER_CHUNK"
        "rawText ! j = PERIOD \<or> rawText ! j = NEWLINE"
      unfolding p_def by blast
    from chunkEnd_at_break[OF chunkEnd_internal[OF internal] j]
    have brk: "rawText ! (chunkEnd rawText p - 1) = PERIOD \<or>
               rawText ! (chunkEnd rawText p - 1) = NEWLINE"
      by simp
    have b: "p < chunkEnd rawText p" "chunkEnd rawText p \<le> length rawText"
      using chunkEnd_bounds[OF p] by auto
    from slice_last[OF b] brk show ?thesis unfolding ch by simp
  qed
  have 3: "smartMergeMultiPagePDF g rawText numPages
             = joinWith [NEWLINE, NEWLINE] (splitIntoChunks rawText)"
    if "apiKey g \<and> (\<forall>chunk isFirst isLast. \<exists>e. complete g (CleanRequest chunk isFirst isLast) = Inl e)"
    using smartMerge_raw_chunks[OF _ long] that by blast
  show ?thesis using 1 2 3 by blast
qed

lemma longText_nth:
  "i < 6501 \<Longrightarrow> longText ! i = (if i = 3500 then PERIOD else 0x61)"
  unfolding longText_def by (auto simp: nth_append nth_Cons')

lemma longText_length: "length longText = 6501"
  unfolding longText_def by simp

lemma chunkEnd_longText: "chunkEnd longText 0 = 3501"
proof -
  have lp: "lastIndexBelow longText PERIOD 6001 = int 3500"
    by (rule lastIndexBelow_found) (simp_all add: longText_nth PERIOD_def)
  have ln: "lastIndexBelow longText NEWLINE 6001 = - 1"
    by (rule lastIndexBelow_none) (simp add: longText_nth PERIOD_def NEWLINE_def)
  show ?thesis
    unfolding chunkEnd_def lastIndexOf_def Let_def
    by (simp add: longText_length MAX_CHARS_PER_CHUNK_def lp ln)
qed

lemma chunkEnd_longText_tail: "chunkEnd longText 3501 = 6501"
  unfolding chunkEnd_def Let_def by (simp add: longText_length MAX_CHARS_PER_CHUNK_def)

lemma splitIntoChunks_longText:
  "splitIntoChunks longText = [slice longText 0 3501, slice longText 3501 6501]"
  unfolding splitIntoChunks_def
  by (subst chunkLoop_unfold, subst chunkLoop_unfold, subst chunkLoop_unfold)
     (simp add: chunkEnd_longText chunkEnd_longText_tail longText_length)

theorem splitIntoChunks_partitions_at_breaks_witness:
  "MAX_CHARS_PER_CHUNK < length longText
   \<and> concat (splitIntoChunks longText) = longText
   \<and> length (splitIntoChunks longText) = 2
   \<and> longText ! 3500 = PERIOD
   \<and> last (splitIntoChunks longText ! 0) = PERIOD
   \<and> smartMergeMultiPagePDF (stubGroq failing) longText 2
       = joinWith [NEWLINE, NEWLINE] (splitIntoChunks longText)"
proof -
  have long: "MAX_CHARS_PER_CHUNK < length longText"
    by (simp add: longText_length MAX_CHARS_PER_CHUNK_def)
  note inst = splitIntoChunks_partitions_at_breaks[OF long, of "stubGroq failing" 2]
  have len: "length (splitIntoChunks longText) = 2" by (simp add: splitIntoChunks_longText)
  have dot: "longText ! 3500 = PERIOD" by (simp add: longText_nth)
  have first: "Suc 0 < length (splitIntoChunks longText)" using len by simp
  have ex: "\<exists>j. length (concat (take 0 (splitIntoChunks longText))) + MAX_CHARS_PER_CHUNK div 2 < j \<and>
                j \<le> length (concat (take 0 (splitIntoChunks longText))) + MAX_CHARS_PER_CHUNK \<and>
                (longText ! j = PERIOD \<or> longText ! j = NEWLINE)"
    by (rule exI[of _ 3500]) (simp add: MAX_CHARS_PER_CHUNK_def dot)
  from inst[THEN conjunct2, THEN conjunct1, rule_format, OF first ex]
  have "last (splitIntoChunks longText ! 0) = PERIOD \<or> last (splitIntoChunks longText ! 0) = NEWLINE"
    by simp
  moreover have "last (splitIntoChunks longText ! 0) \<noteq> NEWLINE"
  proof -
    have "last (slice longText 0 3501) = longText ! (3501 - 1)"
      using slice_last[of 0 3501 longText] by (simp add: longText_length)
    then show ?thesis
      by (simp add: splitIntoChunks_longText longText_nth PERIOD_def NEWLINE_def)
  qed
  ultimately have last: "last (splitIntoChunks longText ! 0) = PERIOD" by simp
  have merge: "smartMergeMultiPagePDF (stubGroq failing) longText 2
       = joinWith [NEWLINE, NEWLINE] (splitIntoChunks longText)"
    using inst[THEN conjunct2, THEN conjunct2] by (simp add: stubGroq_def failing_def)
  show ?thesis using long inst[THEN conjunct1] len dot last merge by simp
qed

section \<open>AdaptiveThresholder: the integral table\<close>

text \<open>The sum of the first channel over the first \<open>x\<close> pixels of row \<open>y\<close>.\<close>

lemma integralRow_fold:
  assumes n: "n \<le> width img"
  shows "fst (fold (\<lambda>x (rowSum, integ).
            let rowSum' = rowSum + firstChannel img x y
            in (rowSum',
                integ[(y + 1) * (width img + 1) + (x + 1) :=
                        integ ! (y * (width img + 1) + (x + 1)) + rowSum']))
          [0..<n] (0, integral)) = (\<Sum>i<n. firstChannel img i y)
       \<and> length (snd (fold (\<lambda>x (rowSum, integ).
            let rowSum' = rowSum + firstChannel img x y
            in (rowSum',
                integ[(y + 1) * (width img + 1) + (x + 1) :=
                        integ ! (y * (width img + 1) + (x + 1)) + rowSum']))
          [0..<n] (0, integral))) = length integral
       \<and> (\<forall>k<length integral.
            snd (fold (\<lambda>x (rowSum, integ).
            let rowSum' = rowSum + firstChannel img x y
            in (rowSum',
                integ[(y + 1) * (width img + 1) + (x + 1) :=
                        integ ! (y * (width img + 1) + (x + 1)) + rowSum']))
          [0..<n] (0, integral)) ! k =
            (if (y + 1) * (width img + 1) + 1 \<le> k \<and> k < (y + 1) * (width img + 1) + 1 + n
             then integral ! (k - (width img + 1)) + (\<Sum>i<k - (y + 1) * (width img + 1). firstChannel img i y)
             else integral ! k))"
  using n
proof (induction n)
  case 0
  then show ?case by simp
next
  case (Suc n)
  define body where "body = (\<lambda>x (rowSum, integ).
            let rowSum' = rowSum + firstChannel img x y
            in (rowSum',
                integ[(y + 1) * (width img + 1) + (x + 1) :=
                        integ ! (y * (width img + 1) + (x + 1)) + rowSum']))"
  define st where "st = fold body [0..<n] (0, integral)"
  have IH: "fst st = (\<Sum>i<n. firstChannel img i y)" "length (snd st) = length integral"
    "\<forall>k<length integral. snd st ! k =
            (if (y + 1) * (width img + 1) + 1 \<le> k \<and> k < (y + 1) * (width img + 1) + 1 + n
             then integral ! (k - (width img + 1)) + (\<Sum>i<k - (y + 1) * (width img + 1). firstChannel img i y)
             else integral ! k)"
    using Suc.IH Suc.prems unfolding st_def body_def by simp_all
  have step: "fold body [0..<Suc n] (0, integral) = body n st"
    unfolding st_def by simp
  obtain rs it where stp: "st = (rs, it)" by (cases st)
  have rs: "rs = (\<Sum>i<n. firstChannel img i y)" and lit: "length it = length integral"
    using IH(1,2) unfolding stp by simp_all
  have b: "body n st = (rs + firstChannel img n y,
             it[(y + 1) * (width img + 1) + (n + 1) :=
                  it ! (y * (width img + 1) + (n + 1)) + (rs + firstChannel img n y)])"
    unfolding stp body_def by (simp add: Let_def)
  have rd: "it ! (y * (width img + 1) + (n + 1)) = integral ! (y * (width img + 1) + (n + 1))"
    if "y * (width img + 1) + (n + 1) < length integral"
  proof -
    have "\<not> ((y + 1) * (width img + 1) + 1 \<le> y * (width img + 1) + (n + 1))"
      using Suc.prems by simp
    then show ?thesis using IH(3)[rule_format, OF that] unfolding stp by simp
  qed
  have 1: "fst (body n st) = (\<Sum>i<Suc n. firstChannel img i y)" unfolding b rs by simp
  have 2: "length (snd (body n st)) = length integral" unfolding b using lit by simp
  have 3: "snd (body n st) ! k =
            (if (y + 1) * (width img + 1) + 1 \<le> k \<and> k < (y + 1) * (width img + 1) + 1 + Suc n
             then integral ! (k - (width img + 1)) + (\<Sum>i<k - (y + 1) * (width img + 1). firstChannel img i y)
             else integral ! k)" if k: "k < length integral" for k
  proof (cases "k = (y + 1) * (width img + 1) + (n + 1)")
    case True
    have in_range: "y * (width img + 1) + (n + 1) < length integral" using k True by simp
    have "snd (body n st) ! k = it ! (y * (width img + 1) + (n + 1)) + (rs + firstChannel img n y)"
      unfolding b using True k lit by simp
    also have "\<dots> = integral ! (y * (width img + 1) + (n + 1)) + (\<Sum>i<Suc n. firstChannel img i y)"
      using rd[OF in_range] rs by simp
    finally have v: "snd (body n st) ! k =
        integral ! (y * (width img + 1) + (n + 1)) + (\<Sum>i<Suc n. firstChannel img i y)" .
    have i1: "k - (width img + 1) = y * (width img + 1) + (n + 1)" unfolding True by simp
    have i2: "k - (y + 1) * (width img + 1) = Suc n" unfolding True by simp
    have i3: "(y + 1) * (width img + 1) + 1 \<le> k \<and> k < (y + 1) * (width img + 1) + 1 + Suc n"
      unfolding True by simp
    show ?thesis unfolding v i1 i2 using i3 by simp
  next
    case False
    have "snd (body n st) ! k = it ! k" unfolding b using False by simp
    also have "\<dots> = (if (y + 1) * (width img + 1) + 1 \<le> k \<and> k < (y + 1) * (width img + 1) + 1 + n
             then integral ! (k - (width img + 1)) + (\<Sum>i<k - (y + 1) * (width img + 1). firstChannel img i y)
             else integral ! k)"
      using IH(3)[rule_format, OF k] unfolding stp by simp
    finally show ?thesis using False by auto
  qed
  show ?case unfolding body_def[symmetric] step using 1 2 3 by blast
qed


lemma integralRow_nth:
  assumes k: "k < length integral"
  shows "integralRow img y integral ! k =
           (if (y + 1) * (width img + 1) + 1 \<le> k \<and> k < (y + 1) * (width img + 1) + 1 + width img
            then integral ! (k - (width img + 1)) + (\<Sum>i<k - (y + 1) * (width img + 1). firstChannel img i y)
            else integral ! k)"
  unfolding integralRow_def
  using integralRow_fold[of "width img" img y integral, THEN conjunct2, THEN conjunct2] k
  by simp

lemma length_integralRow [simp]: "length (integralRow img y integral) = length integral"
  unfolding integralRow_def
  using integralRow_fold[of "width img" img y integral, THEN conjunct2, THEN conjunct1]
  by simp

lemma rectSum_row_Suc:
  "rectSum img 0 x 0 (Suc y) = rectSum img 0 x 0 y + (\<Sum>i<x. firstChannel img i y)"
  unfolding rectSum_def by (simp add: lessThan_atLeast0)

lemma table_index_bound:
  fixes xx yy w h :: nat
  assumes "xx \<le> w" "yy \<le> h"
  shows "yy * (w + 1) + xx < (w + 1) * (h + 1)"
proof -
  have "yy * (w + 1) + xx < yy * (w + 1) + (w + 1)" using assms(1) by simp
  also have "\<dots> = (yy + 1) * (w + 1)" by simp
  also have "\<dots> \<le> (h + 1) * (w + 1)" using assms(2) by (intro mult_le_mono1) simp
  finally show ?thesis by (simp add: mult.commute)
qed

lemma table_row_hit:
  fixes xx yy w m :: nat
  assumes "xx \<le> w"
  shows "(m + 1) * (w + 1) + 1 \<le> yy * (w + 1) + xx \<and> yy * (w + 1) + xx < (m + 1) * (w + 1) + 1 + w
         \<longleftrightarrow> yy = m + 1 \<and> 1 \<le> xx"
proof
  assume h: "(m + 1) * (w + 1) + 1 \<le> yy * (w + 1) + xx \<and> yy * (w + 1) + xx < (m + 1) * (w + 1) + 1 + w"
  have "\<not> yy \<le> m"
  proof
    assume "yy \<le> m"
    then have "yy * (w + 1) \<le> m * (w + 1)" by (rule mult_le_mono1)
    then show False using h assms by simp
  qed
  moreover have "\<not> m + 2 \<le> yy"
  proof
    assume "m + 2 \<le> yy"
    then have "(m + 2) * (w + 1) \<le> yy * (w + 1)" by (rule mult_le_mono1)
    then show False using h by simp
  qed
  ultimately have y: "yy = m + 1" by simp
  then show "yy = m + 1 \<and> 1 \<le> xx" using h by simp
next
  assume "yy = m + 1 \<and> 1 \<le> xx"
  then show "(m + 1) * (w + 1) + 1 \<le> yy * (w + 1) + xx \<and> yy * (w + 1) + xx < (m + 1) * (w + 1) + 1 + w"
    using assms by simp
qed

lemma integralTable_rows:
  assumes m: "m \<le> height img"
  shows "length (fold (integralRow img) [0..<m] (replicate ((width img + 1) * (height img + 1)) 0))
           = (width img + 1) * (height img + 1)
       \<and> (\<forall>yy\<le>height img. \<forall>xx\<le>width img.
            fold (integralRow img) [0..<m] (replicate ((width img + 1) * (height img + 1)) 0)
              ! (yy * (width img + 1) + xx)
            = (if yy \<le> m then rectSum img 0 xx 0 yy else 0))"
  using m
proof (induction m)
  case 0
  have r0: "rectSum img 0 xx 0 0 = 0" for xx unfolding rectSum_def by simp
  have f0: "fold (integralRow img) [0..<0] init = init" for init by simp
  have z: "replicate ((width img + 1) * (height img + 1)) (0::int) ! (yy * (width img + 1) + xx) = 0"
    if "yy \<le> height img" "xx \<le> width img" for yy xx
    by (rule nth_replicate) (rule table_index_bound[OF that(2) that(1)])
  have l: "length (replicate ((width img + 1) * (height img + 1)) (0::int))
           = (width img + 1) * (height img + 1)"
    by (rule length_replicate)
  show ?case unfolding f0
  proof (intro conjI allI impI)
    show "length (replicate ((width img + 1) * (height img + 1)) (0::int))
           = (width img + 1) * (height img + 1)"
      by (rule l)
  next
    fix yy xx
    assume "yy \<le> height img" "xx \<le> width img"
    then have e: "replicate ((width img + 1) * (height img + 1)) (0::int) ! (yy * (width img + 1) + xx) = 0"
      by (rule z)
    show "replicate ((width img + 1) * (height img + 1)) (0::int) ! (yy * (width img + 1) + xx)
          = (if yy \<le> 0 then rectSum img 0 xx 0 yy else 0)"
      unfolding e by (simp add: r0)
  qed
next
  case (Suc m)
  define T where "T = fold (integralRow img) [0..<m] (replicate ((width img + 1) * (height img + 1)) 0)"
  have lT: "length T = (width img + 1) * (height img + 1)"
    and vT: "\<And>yy xx. yy \<le> height img \<Longrightarrow> xx \<le> width img \<Longrightarrow>
               T ! (yy * (width img + 1) + xx) = (if yy \<le> m then rectSum img 0 xx 0 yy else 0)"
    using Suc.IH Suc.prems unfolding T_def by simp_all
  have step: "fold (integralRow img) [0..<Suc m] (replicate ((width img + 1) * (height img + 1)) 0)
              = integralRow img m T"
    unfolding T_def by simp
  have v: "integralRow img m T ! (yy * (width img + 1) + xx)
           = (if yy \<le> Suc m then rectSum img 0 xx 0 yy else 0)"
    if yy: "yy \<le> height img" and xx: "xx \<le> width img" for yy xx
  proof -
    have k: "yy * (width img + 1) + xx < length T"
      unfolding lT using table_index_bound[OF xx yy] .
    show ?thesis
    proof (cases "yy = m + 1 \<and> 1 \<le> xx")
      case True
      then have hit: "(m + 1) * (width img + 1) + 1 \<le> yy * (width img + 1) + xx \<and>
                 yy * (width img + 1) + xx < (m + 1) * (width img + 1) + 1 + width img"
        using table_row_hit[OF xx, of m yy] by blast
      have i1: "yy * (width img + 1) + xx - (width img + 1) = m * (width img + 1) + xx"
        using True by simp
      have i2: "yy * (width img + 1) + xx - (m + 1) * (width img + 1) = xx"
        using True by simp
      have "integralRow img m T ! (yy * (width img + 1) + xx)
            = T ! (yy * (width img + 1) + xx - (width img + 1)) +
              (\<Sum>i<yy * (width img + 1) + xx - (m + 1) * (width img + 1). firstChannel img i m)"
        unfolding integralRow_nth[OF k, of img m] using hit by (simp only: if_P if_True)
      then have "integralRow img m T ! (yy * (width img + 1) + xx)
            = T ! (m * (width img + 1) + xx) + (\<Sum>i<xx. firstChannel img i m)"
        unfolding i1 i2 .
      also have "T ! (m * (width img + 1) + xx) = rectSum img 0 xx 0 m"
        using vT[of m xx] Suc.prems xx by simp
      finally show ?thesis using True by (simp add: rectSum_row_Suc)
    next
      case False
      then have miss: "\<not> ((m + 1) * (width img + 1) + 1 \<le> yy * (width img + 1) + xx \<and>
                 yy * (width img + 1) + xx < (m + 1) * (width img + 1) + 1 + width img)"
        using table_row_hit[OF xx, of m yy] by blast
      have "integralRow img m T ! (yy * (width img + 1) + xx) = T ! (yy * (width img + 1) + xx)"
        unfolding integralRow_nth[OF k, of img m] using miss by (simp only: if_not_P if_False)
      also have "\<dots> = (if yy \<le> m then rectSum img 0 xx 0 yy else 0)" by (rule vT[OF yy xx])
      finally show ?thesis
      proof -
        assume e: "integralRow img m T ! (yy * (width img + 1) + xx)
                   = (if yy \<le> m then rectSum img 0 xx 0 yy else 0)"
        show ?thesis
        proof (cases "yy = m + 1")
          case True
          then have "xx = 0" using False by simp
          then have "rectSum img 0 xx 0 yy = 0" unfolding rectSum_def by simp
          then show ?thesis using e True by simp
        next
          case False
          then show ?thesis using e by auto
        qed
      qed
    qed
  qed
  show ?case unfolding step using lT v by simp
qed

lemma integralTable_nth:
  assumes "yy \<le> height img" "xx \<le> width img"
  shows "integralTable img ! (yy * (width img + 1) + xx) = rectSum img 0 xx 0 yy"
  unfolding integralTable_def
  using integralTable_rows[of "height img" img, OF order_refl, THEN conjunct2, rule_format, OF assms]
    assms(1)
  by simp

lemma rectSum_inclusion_exclusion:
  assumes "x1 \<le> x2" "y1 \<le> y2"
  shows "rectSum img 0 x2 0 y2 - rectSum img 0 x1 0 y2 - rectSum img 0 x2 0 y1 + rectSum img 0 x1 0 y1
         = rectSum img x1 x2 y1 y2"
proof -
  have cols: "(\<Sum>i = 0..<x2. firstChannel img i j) - (\<Sum>i = 0..<x1. firstChannel img i j)
              = (\<Sum>i = x1..<x2. firstChannel img i j)" for j
    using sum.atLeastLessThan_concat[of 0 x1 x2 "\<lambda>i. firstChannel img i j"] assms(1) by simp
  have rows: "rectSum img 0 x2 0 y - rectSum img 0 x1 0 y = rectSum img x1 x2 0 y" for y
  proof -
    have "rectSum img 0 x2 0 y - rectSum img 0 x1 0 y
          = (\<Sum>j = 0..<y. (\<Sum>i = 0..<x2. firstChannel img i j) - (\<Sum>i = 0..<x1. firstChannel img i j))"
      unfolding rectSum_def by (rule sum_subtractf[symmetric])
    also have "\<dots> = (\<Sum>j = 0..<y. \<Sum>i = x1..<x2. firstChannel img i j)"
      by (simp only: cols)
    finally show ?thesis unfolding rectSum_def .
  qed
  have "rectSum img x1 x2 0 y2 - rectSum img x1 x2 0 y1 = rectSum img x1 x2 y1 y2"
    unfolding rectSum_def
    using sum.atLeastLessThan_concat[of 0 y1 y2 "\<lambda>j. \<Sum>i = x1..<x2. firstChannel img i j"] assms(2)
    by simp
  then show ?thesis using rows[of y2] rows[of y1] by simp
qed


lemma window_set:
  assumes "c < n"
  shows "set (filter (inWindow (2 * hb + 1) hb c) [0..<n]) = {c - hb..<min (n - 1) (c + hb) + 1}"
  using assms unfolding inWindow_def by auto

lemma window_length:
  assumes "c < n"
  shows "length (filter (inWindow (2 * hb + 1) hb c) [0..<n]) = min (n - 1) (c + hb) + 1 - (c - hb)"
proof -
  have "distinct (filter (inWindow (2 * hb + 1) hb c) [0..<n])" by simp
  then have "length (filter (inWindow (2 * hb + 1) hb c) [0..<n])
             = card (set (filter (inWindow (2 * hb + 1) hb c) [0..<n]))"
    by (rule distinct_card[symmetric])
  then show ?thesis unfolding window_set[OF assms] by simp
qed

lemma window_sum:
  assumes "c < n"
  shows "sum_list (map f (filter (inWindow (2 * hb + 1) hb c) [0..<n]))
         = (\<Sum>i = c - hb..<min (n - 1) (c + hb) + 1. (f i :: int))"
proof -
  have "distinct (filter (inWindow (2 * hb + 1) hb c) [0..<n])" by simp
  then have "sum_list (map f (filter (inWindow (2 * hb + 1) hb c) [0..<n]))
             = sum f (set (filter (inWindow (2 * hb + 1) hb c) [0..<n]))"
    by (rule sum_list_distinct_conv_sum_set)
  then show ?thesis unfolding window_set[OF assms] .
qed

lemma windowMean_rect:
  assumes x: "x < width img" and y: "y < height img"
  shows "windowMean img (2 * hb + 1) hb x y =
           of_int (rectSum img (x - hb) (min (width img - 1) (x + hb) + 1)
                               (y - hb) (min (height img - 1) (y + hb) + 1))
           / of_nat ((min (width img - 1) (x + hb) + 1 - (x - hb)) *
                     (min (height img - 1) (y + hb) + 1 - (y - hb)))"
  unfolding windowMean_def Let_def rectSum_def window_length[OF x] window_length[OF y]
    window_sum[OF x] window_sum[OF y]
  by (rule refl)

lemma thresholdAt_rect:
  assumes x: "x < width img" and y: "y < height img"
  shows "thresholdAt img (integralTable img) (int hb) C x y =
           (if of_int (firstChannel img x y) >
                 (of_int (rectSum img (x - hb) (min (width img - 1) (x + hb) + 1)
                                      (y - hb) (min (height img - 1) (y + hb) + 1)) :: rat)
                 / of_nat ((min (width img - 1) (x + hb) + 1 - (x - hb)) *
                           (min (height img - 1) (y + hb) + 1 - (y - hb)))
                 - of_int C
            then 255 else 0)"
proof -
  define X1 where "X1 = x - hb"
  define X2 where "X2 = min (width img - 1) (x + hb)"
  define Y1 where "Y1 = y - hb"
  define Y2 where "Y2 = min (height img - 1) (y + hb)"
  have x1: "max 0 (int x - int hb) = int X1" unfolding X1_def by auto
  have x2: "min (int (width img) - 1) (int x + int hb) = int X2" unfolding X2_def using x by auto
  have y1: "max 0 (int y - int hb) = int Y1" unfolding Y1_def by auto
  have y2: "min (int (height img) - 1) (int y + int hb) = int Y2" unfolding Y2_def using y by auto
  have ord: "X1 \<le> X2 + 1" "Y1 \<le> Y2 + 1" "X2 + 1 \<le> width img" "Y2 + 1 \<le> height img"
    "X1 \<le> width img" "Y1 \<le> height img"
    unfolding X1_def X2_def Y1_def Y2_def using x y by auto
  have i22: "nat ((int Y2 + 1) * (int (width img) + 1) + (int X2 + 1)) = (Y2 + 1) * (width img + 1) + (X2 + 1)"
    by (simp add: nat_add_distrib nat_mult_distrib)
  have i21: "nat ((int Y2 + 1) * (int (width img) + 1) + int X1) = (Y2 + 1) * (width img + 1) + X1"
    by (simp add: nat_add_distrib nat_mult_distrib)
  have i12: "nat (int Y1 * (int (width img) + 1) + (int X2 + 1)) = Y1 * (width img + 1) + (X2 + 1)"
    by (simp add: nat_add_distrib nat_mult_distrib)
  have i11: "nat (int Y1 * (int (width img) + 1) + int X1) = Y1 * (width img + 1) + X1"
    by (simp add: nat_add_distrib nat_mult_distrib)
  have t22: "integralTable img ! ((Y2 + 1) * (width img + 1) + (X2 + 1)) = rectSum img 0 (X2 + 1) 0 (Y2 + 1)"
    by (rule integralTable_nth) (use ord in simp_all)
  have t21: "integralTable img ! ((Y2 + 1) * (width img + 1) + X1) = rectSum img 0 X1 0 (Y2 + 1)"
    by (rule integralTable_nth) (use ord in simp_all)
  have t12: "integralTable img ! (Y1 * (width img + 1) + (X2 + 1)) = rectSum img 0 (X2 + 1) 0 Y1"
    by (rule integralTable_nth) (use ord in simp_all)
  have t11: "integralTable img ! (Y1 * (width img + 1) + X1) = rectSum img 0 X1 0 Y1"
    by (rule integralTable_nth) (use ord in simp_all)
  have sum: "integralTable img ! ((Y2 + 1) * (width img + 1) + (X2 + 1))
           - integralTable img ! ((Y2 + 1) * (width img + 1) + X1)
           - integralTable img ! (Y1 * (width img + 1) + (X2 + 1))
           + integralTable img ! (Y1 * (width img + 1) + X1)
           = rectSum img X1 (X2 + 1) Y1 (Y2 + 1)"
    unfolding t22 t21 t12 t11 by (rule rectSum_inclusion_exclusion[OF ord(1,2)])
  have area: "(int X2 - int X1 + 1) * (int Y2 - int Y1 + 1) = int ((X2 + 1 - X1) * (Y2 + 1 - Y1))"
  proof -
    have a: "int (X2 + 1 - X1) = int X2 - int X1 + 1" using ord(1) by (simp add: of_nat_diff)
    have b: "int (Y2 + 1 - Y1) = int Y2 - int Y1 + 1" using ord(2) by (simp add: of_nat_diff)
    show ?thesis unfolding of_nat_mult a b by (rule refl)
  qed
  have "thresholdAt img (integralTable img) (int hb) C x y =
          (if of_int (firstChannel img x y) >
                (of_int (rectSum img X1 (X2 + 1) Y1 (Y2 + 1)) :: rat)
                / of_int (int ((X2 + 1 - X1) * (Y2 + 1 - Y1))) - of_int C
           then 255 else 0)"
    unfolding thresholdAt_def Let_def x1 x2 y1 y2 i22 i21 i12 i11 sum area by (rule refl)
  then show ?thesis unfolding X1_def X2_def Y1_def Y2_def by simp
qed

lemma thresholdAt_eq_spec:
  assumes x: "x < width img" and y: "y < height img"
  shows "thresholdAt img (integralTable img) (int hb) C x y = thresholdSpec img (2 * hb + 1) hb C x y"
  unfolding thresholdAt_rect[OF x y] thresholdSpec_def windowMean_rect[OF x y] by (rule refl)


lemma threshold_row_nth:
  assumes wf: "wellFormed img" and x: "x < width img" and c: "c < channels img"
    and j: "pixelIndex img x y + c < length out"
  shows "length (fold (\<lambda>x' out'. fillPixel (channels img) (pixelIndex img x' y') (V x' y') out')
                   [0..<width img] out) = length out
       \<and> fold (\<lambda>x' out'. fillPixel (channels img) (pixelIndex img x' y') (V x' y') out')
           [0..<width img] out ! (pixelIndex img x y + c)
         = (if y' = y then V x y' else out ! (pixelIndex img x y + c))"
proof -
  let ?step = "\<lambda>x' out'. fillPixel (channels img) (pixelIndex img x' y') (V x' y') out'"
  have len: "length (fold ?step [0..<width img] out) = length out"
    by (rule fold_length_preserved) simp
  have w: "(\<forall>a\<in>set [0..<width img]. (a = x \<and> y' = y) \<longrightarrow>
              fold ?step [0..<width img] out ! (pixelIndex img x y + c) = V a y') \<and>
           ((\<forall>a\<in>set [0..<width img]. \<not> (a = x \<and> y' = y)) \<longrightarrow>
              fold ?step [0..<width img] out ! (pixelIndex img x y + c) = out ! (pixelIndex img x y + c))"
  proof (rule fold_writes[where Z = "\<lambda>a. a = x \<and> y' = y" and V = "\<lambda>a. V a y'"])
    fix a and out' :: "byte list"
    show "length (?step a out') = length out'" by simp
    assume a: "a \<in> set [0..<width img]" and jj: "pixelIndex img x y + c < length out'"
    then have aw: "a < width img" by simp
    show "?step a out' ! (pixelIndex img x y + c)
          = (if a = x \<and> y' = y then V a y' else out' ! (pixelIndex img x y + c))"
      using nth_fillPixel[OF jj] slot_of_pixel[OF wf x aw c, of y' y] by simp
  next
    fix a b
    assume "a = x \<and> y' = y" "b = x \<and> y' = y"
    then show "V a y' = V b y'" by simp
  next
    show "pixelIndex img x y + c < length out" by (rule j)
  qed
  have xin: "x \<in> set [0..<width img]" using x by simp
  show ?thesis using len w xin by auto
qed

lemma thresholdPixels_nth:
  assumes wf: "wellFormed img" and x: "x < width img" and y: "y < height img"
    and c: "c < channels img"
  shows "data (thresholdPixels img blockSize C) ! (pixelIndex img x y + c) =
           thresholdAt img (integralTable img) (int (blockSize div 2)) C x y"
proof -
  define V where "V = (\<lambda>x' y'. thresholdAt img (integralTable img) (int (blockSize div 2)) C x' y')"
  define init where "init = replicate (length (data img)) (0 :: byte)"
  let ?row = "\<lambda>y' out. fold (\<lambda>x' out'. fillPixel (channels img) (pixelIndex img x' y') (V x' y') out')
                   [0..<width img] out"
  have j: "pixelIndex img x y + c < length init"
    unfolding init_def using pixelIndex_in_range[OF wf x y c] by simp
  have w: "(\<forall>a\<in>set [0..<height img]. a = y \<longrightarrow>
              fold ?row [0..<height img] init ! (pixelIndex img x y + c) = V x a) \<and>
           ((\<forall>a\<in>set [0..<height img]. \<not> a = y) \<longrightarrow>
              fold ?row [0..<height img] init ! (pixelIndex img x y + c) = init ! (pixelIndex img x y + c))"
  proof (rule fold_writes[where Z = "\<lambda>a. a = y" and V = "\<lambda>a. V x a"])
    fix a and out :: "byte list"
    show "length (?row a out) = length out" by (rule fold_length_preserved) simp
    assume "pixelIndex img x y + c < length out"
    from threshold_row_nth[OF wf x c this, of a V]
    show "?row a out ! (pixelIndex img x y + c) = (if a = y then V x a else out ! (pixelIndex img x y + c))"
      by simp
  next
    fix a b
    assume "a = y" "b = y"
    then show "V x a = V x b" by simp
  next
    show "pixelIndex img x y + c < length init" by (rule j)
  qed
  have "y \<in> set [0..<height img]" using y by simp
  then have "fold ?row [0..<height img] init ! (pixelIndex img x y + c) = V x y" using w by blast
  then show ?thesis
    unfolding thresholdPixels_def Let_def V_def init_def by simp
qed

lemma thresholdPixels_shape:
  "width (thresholdPixels img blockSize C) = width img \<and>
   height (thresholdPixels img blockSize C) = height img \<and>
   channels (thresholdPixels img blockSize C) = channels img \<and>
   length (data (thresholdPixels img blockSize C)) = length (data img)"
proof -
  have "length (fold (\<lambda>y out. fold (\<lambda>x out'. fillPixel (channels img) (pixelIndex img x y)
                      (thresholdAt img (integralTable img) (int (blockSize div 2)) C x y) out')
                  [0..<width img] out) [0..<height img] (replicate (length (data img)) (0 :: byte)))
        = length (replicate (length (data img)) (0 :: byte))"
    by (rule fold2_length_preserved) simp
  then show ?thesis unfolding thresholdPixels_def Let_def by simp
qed

lemma applyAdaptiveThreshold_decoded:
  "sharpRaw sh imageBuffer = Inr img \<Longrightarrow>
   applyAdaptiveThreshold sh imageBuffer blockSize C = sharpFromRaw sh (thresholdPixels img blockSize C)"
  unfolding applyAdaptiveThreshold_def bindE_def by simp

lemma thresholdSpec_binary: "thresholdSpec img side lead C x y = 255 \<or> thresholdSpec img side lead C x y = 0"
  unfolding thresholdSpec_def by simp


lemma ridge_facts:
  "wellFormed ridge" "width ridge = 3" "height ridge = 1" "channels ridge = 1"
  "firstChannel ridge 0 0 = 118" "firstChannel ridge 1 0 = 100" "firstChannel ridge 2 0 = 118"
  "firstChannel ridge (Suc 0) 0 = 100" "firstChannel ridge (Suc (Suc 0)) 0 = 118"
  by (simp_all add: ridge_def wellFormed_def firstChannel_def pixelIndex_def)

text \<open>
  C3, as stated, fails for an even \<open>blockSize\<close>: the window reaches \<open>blockSize div 2\<close> pixels to
  each side of the pixel, so for \<open>blockSize = 2\<close> it has three columns, not two. On the row
  118, 100, 118 with \<open>C = 10\<close> the code compares 100 with the mean 112 of all three pixels minus
  10 and writes 0, where either window of side 2 that holds the middle pixel has the mean 109
  and gives 255.
\<close>

theorem applyAdaptiveThreshold_even_blockSize_counterexample:
  "data (thresholdPixels ridge 2 10) ! (pixelIndex ridge 1 0 + 0) = 0
   \<and> thresholdSpec ridge 2 0 10 1 0 = 255
   \<and> thresholdSpec ridge 2 1 10 1 0 = 255"
proof -
  have "data (thresholdPixels ridge 2 10) ! (pixelIndex ridge 1 0 + 0)
        = thresholdAt ridge (integralTable ridge) (int (2 div 2)) 10 1 0"
    by (rule thresholdPixels_nth) (simp_all add: ridge_facts)
  also have "\<dots> = thresholdSpec ridge (2 * (2 div 2) + 1) (2 div 2) 10 1 0"
    by (rule thresholdAt_eq_spec) (simp_all add: ridge_facts)
  also have "\<dots> = 0"
    by (simp add: thresholdSpec_def windowMean_def inWindow_def ridge_facts upt_rec)
  finally have 1: "data (thresholdPixels ridge 2 10) ! (pixelIndex ridge 1 0 + 0) = 0" .
  have 2: "thresholdSpec ridge 2 0 10 1 0 = 255"
    by (simp add: thresholdSpec_def windowMean_def inWindow_def ridge_facts upt_rec)
  have 3: "thresholdSpec ridge 2 1 10 1 0 = 255"
    by (simp add: thresholdSpec_def windowMean_def inWindow_def ridge_facts upt_rec)
  show ?thesis using 1 2 3 by simp
qed

text \<open>
  C3, amended. For a decoded, well-formed image, any \<open>blockSize\<close> and any integer \<open>C\<close>,
  \<open>applyAdaptiveThreshold\<close> hands to the encoder a mask of the same width, height, channel
  count and length as the input, in which every channel of pixel \<open>(x, y)\<close> is 255 if the first
  channel of the pixel exceeds \<open>localMean - C\<close>, and 0 otherwise. \<open>localMean\<close> is the exact mean of
  the first channel over the square window that reaches \<open>blockSize div 2\<close> pixels to each side of
  the pixel, clipped at the image borders, the sum taken directly over the clipped window and
  divided by its area. The window has \<open>2 * (blockSize div 2) + 1\<close> pixels a side, which is
  \<open>blockSize\<close> when \<open>blockSize\<close> is odd.
\<close>

theorem applyAdaptiveThreshold_local_mean:
  assumes dec: "sharpRaw sh imageBuffer = Inr img" and wf: "wellFormed img"
    and x: "x < width img" and y: "y < height img" and c: "c < channels img"
  shows "applyAdaptiveThreshold sh imageBuffer blockSize C
           = sharpFromRaw sh (thresholdPixels img blockSize C)
       \<and> width (thresholdPixels img blockSize C) = width img
       \<and> height (thresholdPixels img blockSize C) = height img
       \<and> channels (thresholdPixels img blockSize C) = channels img
       \<and> length (data (thresholdPixels img blockSize C)) = length (data img)
       \<and> data (thresholdPixels img blockSize C) ! (pixelIndex img x y + c)
           = thresholdSpec img (2 * (blockSize div 2) + 1) (blockSize div 2) C x y
       \<and> (odd blockSize \<longrightarrow>
            data (thresholdPixels img blockSize C) ! (pixelIndex img x y + c)
              = thresholdSpec img blockSize ((blockSize - 1) div 2) C x y)"
proof -
  have v: "data (thresholdPixels img blockSize C) ! (pixelIndex img x y + c)
           = thresholdSpec img (2 * (blockSize div 2) + 1) (blockSize div 2) C x y"
    unfolding thresholdPixels_nth[OF wf x y c] by (rule thresholdAt_eq_spec[OF x y])
  have o: "data (thresholdPixels img blockSize C) ! (pixelIndex img x y + c)
              = thresholdSpec img blockSize ((blockSize - 1) div 2) C x y" if "odd blockSize"
  proof -
    from that obtain k where k: "blockSize = 2 * k + 1" by (auto elim: oddE)
    have "2 * (blockSize div 2) + 1 = blockSize" "(blockSize - 1) div 2 = blockSize div 2"
      unfolding k by simp_all
    then show ?thesis using v by simp
  qed
  show ?thesis
    using applyAdaptiveThreshold_decoded[OF dec] thresholdPixels_shape[of img blockSize C] v o
    by blast
qed

theorem applyAdaptiveThreshold_local_mean_witness:
  "sharpRaw (stubSharp ridge) [] = Inr ridge \<and> wellFormed ridge
   \<and> applyAdaptiveThreshold (stubSharp ridge) [] 3 10 = Inr (data (thresholdPixels ridge 3 10))
   \<and> length (data (thresholdPixels ridge 3 10)) = 3
   \<and> data (thresholdPixels ridge 3 10) ! 0 = 255
   \<and> data (thresholdPixels ridge 3 10) ! 1 = 0"
proof -
  have dec: "sharpRaw (stubSharp ridge) [] = Inr ridge" by (simp add: stubSharp_def)
  have b: "(0::nat) < width ridge" "(1::nat) < width ridge" "(0::nat) < height ridge"
    "(0::nat) < channels ridge"
    by (simp_all add: ridge_facts)
  note left = applyAdaptiveThreshold_local_mean[OF dec ridge_facts(1) b(1) b(3) b(4), of 3 10]
  note mid = applyAdaptiveThreshold_local_mean[OF dec ridge_facts(1) b(2) b(3) b(4), of 3 10]
  have i: "pixelIndex ridge 0 0 + 0 = 0" "pixelIndex ridge 1 0 + 0 = 1"
    by (simp_all add: pixelIndex_def ridge_def)
  have s0: "thresholdSpec ridge 3 ((3 - 1) div 2) 10 0 0 = 255"
    by (simp add: thresholdSpec_def windowMean_def inWindow_def ridge_facts upt_rec)
  have s1: "thresholdSpec ridge 3 ((3 - 1) div 2) 10 1 0 = 0"
    by (simp add: thresholdSpec_def windowMean_def inWindow_def ridge_facts upt_rec)
  have 1: "applyAdaptiveThreshold (stubSharp ridge) [] 3 10 = Inr (data (thresholdPixels ridge 3 10))"
    using left by (simp add: stubSharp_def)
  have 2: "length (data (thresholdPixels ridge 3 10)) = 3"
    using left by (simp add: ridge_def)
  have 3: "data (thresholdPixels ridge 3 10) ! 0 = 255"
    using left s0 unfolding i by simp
  have 4: "data (thresholdPixels ridge 3 10) ! 1 = 0"
    using mid s1 unfolding i by simp
  show ?thesis using dec ridge_facts(1) 1 2 3 4 by simp
qed

end
